theory Spec2Isabelle
  imports Main "HOL-Library.Sublist"
begin

section \<open>The node-declaration compiler of \<^verbatim>\<open>py2c.tree.node_gen\<close>\<close>

text \<open>
  The module reads declarations of tree-node classes (\<^verbatim>\<open>Name(Parent): [type modifier name, ...]\<close>
  or \<^verbatim>\<open>Name(Parent): inherit\<close>), checks them and writes one Python class per declaration.
  Texts are lists of characters. The word class \<^verbatim>\<open>\w\<close> of the lexer and \<^verbatim>\<open>repr\<close>
  are the ASCII ones: characters beyond ASCII are outside this development.
\<close>

subsection \<open>Comments\<close>

text \<open>
  \<^verbatim>\<open>re.sub(r"(?m)\#.*($|\n)", "", text)\<close>: from a \<^verbatim>\<open>#\<close> the greedy \<^verbatim>\<open>.*\<close> runs to the end
  of the line, where \<^verbatim>\<open>$\<close> (tried first, multi-line mode) matches without consuming the
  line feed. So the line feed that ends a comment stays in the text.
\<close>

function remove_comments :: "string \<Rightarrow> string" where
  "remove_comments [] = []"
| "remove_comments (c # cs) =
     (if c = CHR ''#'' then remove_comments (dropWhile (\<lambda>x. x \<noteq> CHR 0x0A) cs)
      else c # remove_comments cs)"
  by pat_completeness auto
termination
  by (relation "measure length") (auto simp: length_dropWhile_le le_imp_less_Suc)

subsection \<open>Tokens and the lexer\<close>

text \<open>
  The token types are \<^verbatim>\<open>INHERIT\<close> and \<^verbatim>\<open>NAME\<close> and the literals \<^verbatim>\<open>()[]:*?+,\<close>.
  The lexer is asked for one token at a time; where no rule matches, \<^verbatim>\<open>t_error\<close> raises
  with the rest of the input. \<open>BAD rest\<close> stands for that position of the stream: the error
  is raised when the parser asks for the token there, not before.
\<close>

datatype token = INHERIT | NAME string | LIT char | BAD string

definition t_ignore :: string where
  "t_ignore = [CHR '' '', CHR 0x09]"

definition literals :: string where
  "literals = ''()[]:*?+,''"

definition is_word_char :: "char \<Rightarrow> bool" where
  "is_word_char c \<longleftrightarrow>
     c \<in> set ''abcdefghijklmnopqrstuvwxyzABCDEFGHIJKLMNOPQRSTUVWXYZ0123456789_''"

text \<open>
  The rules in the order of the master pattern: ignored characters are skipped first, then
  \<^verbatim>\<open>t_newline\<close> (a function rule, which returns no token), then \<^verbatim>\<open>t_INHERIT\<close> (the longer
  of the two string rules, so it is tried before \<^verbatim>\<open>t_NAME\<close>), then \<^verbatim>\<open>t_NAME\<close>, then the
  literals, then \<^verbatim>\<open>t_error\<close>.
\<close>

function lex :: "string \<Rightarrow> token list" where
  "lex [] = []"
| "lex (c # cs) =
     (if c \<in> set t_ignore then lex cs
      else if c = CHR 0x0A then lex cs
      else if prefix ''inherit'' (c # cs) then INHERIT # lex (drop 7 (c # cs))
      else if is_word_char c
        then NAME (takeWhile is_word_char (c # cs)) # lex (dropWhile is_word_char (c # cs))
      else if c \<in> set literals then LIT c # lex cs
      else [BAD (c # cs)])"
  by pat_completeness auto
termination
  by (relation "measure length") (auto simp: length_dropWhile_le le_imp_less_Suc)

subsection \<open>Parsed data and errors\<close>

text \<open>
  A field is the tuple \<^verbatim>\<open>(name, type, modifier)\<close> built by \<^verbatim>\<open>p_field\<close>; the modifier is one of
  the strings chosen by \<^verbatim>\<open>p_modifier\<close>. The fields of a node are the string \<^verbatim>\<open>'inherit'\<close>
  or a list of fields. \<^verbatim>\<open>Definition\<close> is the named tuple \<^verbatim>\<open>name parent fields\<close>.
\<close>

type_synonym field = "string \<times> string \<times> string"

datatype node_fields = Inherit | FieldList "field list"

datatype Definition =
  Definition (name: string) (parent: "string option") (fields: node_fields)

text \<open>One constructor for each place that raises \<^verbatim>\<open>ParserError\<close>, with what its message names.\<close>

datatype parser_error =
    Unable_to_generate_tokens string
  | Unexpected_token "token option"
  | Multiple_declarations_of_name string
  | Multiple_declarations_of_attributes string "string list"
  | Inheriting_without_parent string

subsection \<open>The actions of the grammar rules\<close>

definition p_modifier :: "char option \<Rightarrow> string" where
  "p_modifier p1 =
     (if p1 = Some CHR ''+'' then ''ONE_OR_MORE''
      else if p1 = Some CHR ''*'' then ''ZERO_OR_MORE''
      else if p1 = Some CHR ''?'' then ''OPTIONAL''
      else ''NEEDED'')"

definition p_field :: "string \<Rightarrow> string \<Rightarrow> string \<Rightarrow> field" where
  "p_field p1 p2 p3 = (p3, p1, p2)"

definition p_colon_fields_opt :: "node_fields option \<Rightarrow> node_fields" where
  "p_colon_fields_opt p2 = (case p2 of Some fs \<Rightarrow> fs | None \<Rightarrow> FieldList [])"

text \<open>The loop of \<^verbatim>\<open>p_declaration\<close> over the fields, with its two lists.\<close>

fun duplicated_fields :: "field list \<Rightarrow> string list \<Rightarrow> string list \<Rightarrow> string list" where
  "duplicated_fields [] seen_fields dups = dups"
| "duplicated_fields ((field_name, _, _) # li) seen_fields dups =
     (if field_name \<in> set seen_fields
      then duplicated_fields li seen_fields (dups @ [field_name])
      else duplicated_fields li (seen_fields @ [field_name]) dups)"

text \<open>
  \<^verbatim>\<open>p_declaration\<close> reads and extends \<^verbatim>\<open>self.seen_node_names\<close>; the set is passed in and
  returned.
\<close>

definition p_declaration ::
  "string set \<Rightarrow> string \<Rightarrow> string option \<Rightarrow> node_fields
     \<Rightarrow> parser_error + (string set \<times> Definition)" where
  "p_declaration seen_node_names p1 p2 p3 =
     (if p1 \<in> seen_node_names then Inl (Multiple_declarations_of_name p1)
      else (case p3 of
              FieldList li \<Rightarrow>
                (if duplicated_fields li [] [] \<noteq> []
                 then Inl (Multiple_declarations_of_attributes p1 (duplicated_fields li [] []))
                 else Inr (insert p1 seen_node_names, Definition p1 p2 p3))
            | Inherit \<Rightarrow>
                (if p2 = None then Inl (Inheriting_without_parent p1)
                 else Inr (insert p1 seen_node_names, Definition p1 p2 p3))))"

subsection \<open>The parser\<close>

text \<open>
  The grammar is run by an LALR(1) engine. Every state of its table that reduces does so on
  the tokens that may follow only, so a token that cannot continue the input is refused as soon
  as it is the lookahead, before any further action runs. The functions below read the token
  list in that order: one function for each nonterminal, \<open>reject\<close> where the lookahead has no
  entry in the table.
\<close>

fun reject :: "token list \<Rightarrow> parser_error" where
  "reject [] = Unexpected_token None"
| "reject (BAD rest # _) = Unable_to_generate_tokens rest"
| "reject (t # _) = Unexpected_token (Some t)"

text \<open>\<^verbatim>\<open>field : NAME modifier NAME\<close>\<close>

definition parse_field :: "token list \<Rightarrow> parser_error + (field \<times> token list)" where
  "parse_field ts =
     (case ts of
        NAME p1 # ts1 \<Rightarrow>
          (case ts1 of
             NAME p3 # ts2 \<Rightarrow> Inr (p_field p1 (p_modifier None) p3, ts2)
           | LIT c # ts2 \<Rightarrow>
               (if c \<in> set ''?+*'' then
                  (case ts2 of
                     NAME p3 # ts3 \<Rightarrow> Inr (p_field p1 (p_modifier (Some c)) p3, ts3)
                   | _ \<Rightarrow> Inl (reject ts2))
                else Inl (reject ts1))
           | _ \<Rightarrow> Inl (reject ts1))
      | _ \<Rightarrow> Inl (reject ts))"

lemma parse_field_shorter:
  "parse_field ts = Inr (f, ts') \<Longrightarrow> length ts' < length ts"
  by (auto simp: parse_field_def split: list.splits token.splits if_splits)

text \<open>
  \<^verbatim>\<open>more_fields_maybe : more_fields_maybe ',' field | empty\<close>, then the optional last comma of
  \<^verbatim>\<open>field_list\<close> and the closing bracket of \<^verbatim>\<open>fields\<close>. The first argument is the list built
  so far.
\<close>

function (sequential) parse_more_fields_maybe ::
  "field list \<Rightarrow> token list \<Rightarrow> parser_error + (field list \<times> token list)" where
  "parse_more_fields_maybe li (LIT c # ts1) =
     (if c = CHR '']'' then Inr (li, ts1)
      else if c = CHR '','' then
        (case ts1 of
           LIT c' # ts2 \<Rightarrow> (if c' = CHR '']'' then Inr (li, ts2) else Inl (reject ts1))
         | NAME p1 # ts2 \<Rightarrow>
             (case parse_field ts1 of
                Inl e \<Rightarrow> Inl e
              | Inr (f, ts3) \<Rightarrow> parse_more_fields_maybe (li @ [f]) ts3)
         | _ \<Rightarrow> Inl (reject ts1))
      else Inl (reject (LIT c # ts1)))"
| "parse_more_fields_maybe li ts = Inl (reject ts)"
  by pat_completeness auto
termination
  by (relation "measure (\<lambda>(li, ts). length ts)") (auto dest!: parse_field_shorter)

text \<open>\<^verbatim>\<open>field_list : field more_fields_maybe ',' | field more_fields_maybe | empty\<close>, after \<^verbatim>\<open>[\<close>\<close>

definition parse_field_list :: "token list \<Rightarrow> parser_error + (field list \<times> token list)" where
  "parse_field_list ts =
     (case ts of
        LIT c # ts1 \<Rightarrow> (if c = CHR '']'' then Inr ([], ts1) else Inl (reject ts))
      | NAME p1 # ts1 \<Rightarrow>
          (case parse_field ts of
             Inl e \<Rightarrow> Inl e
           | Inr (f, ts2) \<Rightarrow> parse_more_fields_maybe [f] ts2)
      | _ \<Rightarrow> Inl (reject ts))"

text \<open>\<^verbatim>\<open>fields : '[' field_list ']' | INHERIT\<close>\<close>

definition parse_fields :: "token list \<Rightarrow> parser_error + (node_fields \<times> token list)" where
  "parse_fields ts =
     (case ts of
        INHERIT # ts1 \<Rightarrow> Inr (Inherit, ts1)
      | LIT c # ts1 \<Rightarrow>
          (if c = CHR ''['' then
             (case parse_field_list ts1 of
                Inl e \<Rightarrow> Inl e
              | Inr (li, ts2) \<Rightarrow> Inr (FieldList li, ts2))
           else Inl (reject ts))
      | _ \<Rightarrow> Inl (reject ts))"

text \<open>The lookahead on which a declaration is reduced: a \<^verbatim>\<open>NAME\<close> or the end of the input.\<close>

fun at_declaration_end :: "token list \<Rightarrow> bool" where
  "at_declaration_end [] = True"
| "at_declaration_end (NAME _ # _) = True"
| "at_declaration_end _ = False"

text \<open>\<^verbatim>\<open>parent_class_opt : '(' NAME ')' | empty\<close>\<close>

definition parse_parent_class_opt ::
  "token list \<Rightarrow> parser_error + (string option \<times> token list)" where
  "parse_parent_class_opt ts =
     (case ts of
        LIT c # ts1 \<Rightarrow>
          (if c = CHR ''('' then
             (case ts1 of
                NAME p2 # ts2 \<Rightarrow>
                  (case ts2 of
                     LIT c' # ts3 \<Rightarrow>
                       (if c' = CHR '')'' then Inr (Some p2, ts3) else Inl (reject ts2))
                   | _ \<Rightarrow> Inl (reject ts2))
              | _ \<Rightarrow> Inl (reject ts1))
           else Inr (None, ts))
      | _ \<Rightarrow> Inr (None, ts))"

text \<open>
  \<^verbatim>\<open>colon_fields_opt : ':' fields | empty\<close>. A lookahead other than \<^verbatim>\<open>:\<close>, a \<^verbatim>\<open>NAME\<close> or the end
  of the input is refused here, also when no parent was given.
\<close>

definition parse_colon_fields_opt ::
  "token list \<Rightarrow> parser_error + (node_fields \<times> token list)" where
  "parse_colon_fields_opt ts =
     (case ts of
        LIT c # ts1 \<Rightarrow>
          (if c = CHR '':'' then
             (case parse_fields ts1 of
                Inl e \<Rightarrow> Inl e
              | Inr (fs, ts2) \<Rightarrow>
                  (if at_declaration_end ts2 then Inr (p_colon_fields_opt (Some fs), ts2)
                   else Inl (reject ts2)))
           else Inl (reject ts))
      | _ \<Rightarrow>
          (if at_declaration_end ts then Inr (p_colon_fields_opt None, ts)
           else Inl (reject ts)))"

lemma parse_more_fields_maybe_shorter:
  "parse_more_fields_maybe li ts = Inr (li', ts') \<Longrightarrow> length ts' < length ts"
proof (induction "length ts" arbitrary: li ts rule: less_induct)
  case less
  show ?case
  proof (cases "\<exists>f ts1 ts3. ts = LIT CHR '','' # ts1 \<and> parse_field ts1 = Inr (f, ts3)
                  \<and> parse_more_fields_maybe (li @ [f]) ts3 = Inr (li', ts')")
    case True
    then obtain f ts1 ts3 where ts: "ts = LIT CHR '','' # ts1"
      and pf: "parse_field ts1 = Inr (f, ts3)"
      and more: "parse_more_fields_maybe (li @ [f]) ts3 = Inr (li', ts')"
      by blast
    from parse_field_shorter [OF pf] ts have shorter: "length ts3 < length ts"
      by simp
    from less.hyps [OF shorter more] shorter show ?thesis
      by simp
  next
    case False
    show ?thesis
    proof (cases ts)
      case Nil
      with less.prems show ?thesis by simp
    next
      case (Cons t ts1)
      with less.prems False show ?thesis
        by (cases t) (auto split: if_splits list.splits token.splits sum.splits)
    qed
  qed
qed

lemma parse_field_list_shorter:
  "parse_field_list ts = Inr (li, ts') \<Longrightarrow> length ts' < length ts"
  by (auto simp: parse_field_list_def split: list.splits token.splits if_splits sum.splits
        dest!: parse_field_shorter parse_more_fields_maybe_shorter)

lemma parse_fields_shorter:
  "parse_fields ts = Inr (fs, ts') \<Longrightarrow> length ts' < length ts"
  by (auto simp: parse_fields_def split: list.splits token.splits if_splits sum.splits
        dest!: parse_field_list_shorter)

lemma parse_parent_class_opt_shorter:
  "parse_parent_class_opt ts = Inr (p2, ts') \<Longrightarrow> length ts' \<le> length ts"
  by (auto simp: parse_parent_class_opt_def split: list.splits token.splits if_splits)

lemma parse_colon_fields_opt_shorter:
  "parse_colon_fields_opt ts = Inr (fs, ts') \<Longrightarrow> length ts' \<le> length ts"
  by (auto simp: parse_colon_fields_opt_def
        split: list.splits token.splits if_splits sum.splits
        dest!: parse_fields_shorter)

text \<open>
  \<^verbatim>\<open>start : zero_or_more_declaration\<close> and \<^verbatim>\<open>declaration : NAME parent_class_opt colon_fields_opt\<close>.
  The arguments are the set of names seen and the tuple of definitions built so far.
\<close>

function (sequential) zero_or_more_declaration ::
  "string set \<Rightarrow> Definition list \<Rightarrow> token list \<Rightarrow> parser_error + Definition list" where
  "zero_or_more_declaration seen_node_names ds [] = Inr ds"
| "zero_or_more_declaration seen_node_names ds (NAME p1 # ts1) =
     (case parse_parent_class_opt ts1 of
        Inl e \<Rightarrow> Inl e
      | Inr (p2, ts2) \<Rightarrow>
          (case parse_colon_fields_opt ts2 of
             Inl e \<Rightarrow> Inl e
           | Inr (p3, ts3) \<Rightarrow>
               (case p_declaration seen_node_names p1 p2 p3 of
                  Inl e \<Rightarrow> Inl e
                | Inr (seen', d) \<Rightarrow> zero_or_more_declaration seen' (ds @ [d]) ts3)))"
| "zero_or_more_declaration seen_node_names ds ts = Inl (reject ts)"
  by pat_completeness auto
termination
  by (relation "measure (\<lambda>(seen, ds, ts). length ts)")
     (auto dest!: parse_parent_class_opt_shorter parse_colon_fields_opt_shorter)

text \<open>\<^verbatim>\<open>Parser.parse\<close>: the set of names is reset, the comments are removed, the text is parsed.\<close>

definition parse :: "string \<Rightarrow> parser_error + Definition list" where
  "parse text = zero_or_more_declaration {} [] (lex (remove_comments text))"

subsection \<open>Generation of the sources\<close>

text \<open>
  \<^verbatim>\<open>repr\<close> of a string, as the format field \<^verbatim>\<open>{!r}\<close> applies it: single quotes unless the
  string has a single quote and no double quote; the quote and the backslash are escaped,
  tab, line feed and carriage return are written \<^verbatim>\<open>\t\<close>, \<^verbatim>\<open>\n\<close>, \<^verbatim>\<open>\r\<close>, the other control
  characters \<^verbatim>\<open>\xhh\<close>.
\<close>

definition hex_digit :: "nat \<Rightarrow> char" where
  "hex_digit n = ''0123456789abcdef'' ! (n mod 16)"

definition repr_char :: "char \<Rightarrow> char \<Rightarrow> string" where
  "repr_char q c =
     (if c = q \<or> c = CHR 0x5C then [CHR 0x5C, c]
      else if c = CHR 0x09 then [CHR 0x5C, CHR ''t'']
      else if c = CHR 0x0A then [CHR 0x5C, CHR ''n'']
      else if c = CHR 0x0D then [CHR 0x5C, CHR ''r'']
      else if (of_char c :: nat) < 32 \<or> (of_char c :: nat) = 127
        then [CHR 0x5C, CHR ''x'', hex_digit (of_char c div 16), hex_digit (of_char c)]
      else [c])"

definition py_repr :: "string \<Rightarrow> string" where
  "py_repr s =
     (let q = (if CHR 0x27 \<in> set s \<and> CHR 0x22 \<notin> set s then CHR 0x22 else CHR 0x27)
      in [q] @ concat (map (repr_char q) s) @ [q])"

text \<open>\<^verbatim>\<open>sep.join(xs)\<close>\<close>

fun join :: "string \<Rightarrow> string list \<Rightarrow> string" where
  "join sep [] = []"
| "join sep [x] = x"
| "join sep (x # y # ys) = x @ sep @ join sep (y # ys)"

definition indent :: string where
  "indent = ''    ''"

definition prettify_list :: "field list \<Rightarrow> string" where
  "prettify_list li =
     (if li = [] then ''[]''
      else join [CHR 0x0A]
             ([''[''] @
              map (\<lambda>(nm, ty, md).
                     indent @ indent @ indent @
                     ''('' @ py_repr nm @ '', '' @ ty @ '', '' @ py_repr md @ ''),'') li @
              [indent @ indent @ '']'']))"

text \<open>
  \<^verbatim>\<open>generate_class\<close>, with its two local strings. \<^verbatim>\<open>definition.parent or "object"\<close>: \<^verbatim>\<open>None\<close>
  and the empty string give \<^verbatim>\<open>object\<close>.
\<close>

definition class_declaration :: "Definition \<Rightarrow> string" where
  "class_declaration d =
     ''class '' @ name d @ ''('' @
       (case parent d of None \<Rightarrow> ''object'' | Some p \<Rightarrow> if p = [] then ''object'' else p) @
       ''):'' @ [CHR 0x0A]"

definition field_declaration :: "Definition \<Rightarrow> string" where
  "field_declaration d =
     (case fields d of
        Inherit \<Rightarrow> ''    pass''
      | FieldList li \<Rightarrow>
          ''    @fields_decorator'' @ [CHR 0x0A] @
          ''    def _fields(cls):'' @ [CHR 0x0A] @
          ''        return '' @ prettify_list li)"

definition generate_class :: "Definition \<Rightarrow> string" where
  "generate_class d = class_declaration d @ field_declaration d"

definition generate_sources :: "Definition list \<Rightarrow> string" where
  "generate_sources data = join [CHR 0x0A, CHR 0x0A, CHR 0x0A] (map generate_class data)"

definition PREFIX :: string where
  "PREFIX = join [CHR 0x0A]
       [''# -----------------------------------------------------------------------------'',
        ''# This file is auto-generated by ``py2c.tree.node_gen``.'',
        ''#'',
        ''# Instead of modifying this file, modify the relevant '' @ [CHR 0x22] @ ''*.tree'' @ [CHR 0x22] @ '' file'',
        ''# in py2c/tree directory of the source distribution.'',
        ''# -----------------------------------------------------------------------------'',
        ''# ANY CHANGES YOU MAKE IN THIS FILE DIRECTLY WILL BE LOST.'',
        ''# -----------------------------------------------------------------------------'',
        [],
        ''from . import Node, identifier, fields_decorator  # noqa'']"

subsection \<open>Writing the files\<close>

text \<open>
  A file system maps a path to the text of the file there. \<^verbatim>\<open>os.path.join\<close> puts one
  separator between a directory and a name, none after an empty directory or one that ends
  with the separator; a name that starts with the separator replaces the directory.
\<close>

type_synonym filesystem = "string \<rightharpoonup> string"

definition path_join :: "string \<Rightarrow> string \<Rightarrow> string" where
  "path_join a b =
     (if b \<noteq> [] \<and> hd b = CHR ''/'' then b
      else if a = [] \<or> last a = CHR ''/'' then a @ b
      else a @ ''/'' @ b)"

text \<open>What \<^verbatim>\<open>generate\<close> writes to the output file for the parsed data.\<close>

definition written_text :: "Definition list \<Rightarrow> string" where
  "written_text data =
     PREFIX @ [CHR 0x0A, CHR 0x0A, CHR 0x0A] @ generate_sources data @ [CHR 0x0A]"

text \<open>
  The exceptions that leave \<^verbatim>\<open>generate\<close>: the one it raises for a file that does not parse,
  and the one of \<^verbatim>\<open>open\<close> for a file that cannot be read.
\<close>

datatype generate_error = Could_not_generate string | Cannot_open string

text \<open>
  The loop of \<^verbatim>\<open>generate\<close> over \<^verbatim>\<open>files_to_convert\<close>. It returns the file system as the
  loop leaves it, and the exception if one was raised.
\<close>

definition infile_name :: "string \<Rightarrow> string \<Rightarrow> string" where
  "infile_name source_dir fname = path_join source_dir fname"

definition outfile_name :: "string \<Rightarrow> string \<Rightarrow> string" where
  "outfile_name output_dir fname =
     path_join output_dir (take (length fname - 5) fname @ ''.py'')"

fun generate_loop ::
  "string \<Rightarrow> string \<Rightarrow> bool \<Rightarrow> string list \<Rightarrow> filesystem
     \<Rightarrow> generate_error option \<times> filesystem" where
  "generate_loop source_dir output_dir update [] fs = (None, fs)"
| "generate_loop source_dir output_dir update (fname # rest) fs =
     (if fs (outfile_name output_dir fname) \<noteq> None \<and> \<not> update
      then generate_loop source_dir output_dir update rest fs
      else (case fs (infile_name source_dir fname) of
              None \<Rightarrow> (Some (Cannot_open (infile_name source_dir fname)), fs)
            | Some src \<Rightarrow>
                (case parse src of
                   Inl e \<Rightarrow> (Some (Could_not_generate (infile_name source_dir fname)), fs)
                 | Inr data \<Rightarrow>
                     generate_loop source_dir output_dir update rest
                       (fs(outfile_name output_dir fname \<mapsto> written_text data)))))"

text \<open>
  \<^verbatim>\<open>generate(source_dir, output_dir, update)\<close>; \<open>listing\<close> is what \<^verbatim>\<open>os.listdir\<close> returns
  for the source directory.
\<close>

definition generate ::
  "string list \<Rightarrow> string \<Rightarrow> string option \<Rightarrow> bool \<Rightarrow> filesystem
     \<Rightarrow> generate_error option \<times> filesystem" where
  "generate listing source_dir output_dir update fs =
     generate_loop source_dir (case output_dir of None \<Rightarrow> source_dir | Some d \<Rightarrow> d) update
       (filter (suffix ''.tree'') listing) fs"

subsection \<open>The surface syntax of declarations\<close>

text \<open>
  A declaration as it is written: the node name, the parent if one is given, and the clause
  after the colon: none, the keyword \<^verbatim>\<open>inherit\<close>, or a bracketed list of fields with or
  without a comma after the last one. A field is written type name, modifier suffix, field
  name.
\<close>

type_synonym written_field = "string \<times> char option \<times> string"

datatype written_clause = No_clause | Inherit_clause | List_clause "written_field list" bool

type_synonym written_declaration = "string \<times> string option \<times> written_clause"

definition modifier_suffixes :: "char option set" where
  "modifier_suffixes = {None, Some CHR ''?'', Some CHR ''+'', Some CHR ''*''}"

fun field_tokens :: "written_field \<Rightarrow> token list" where
  "field_tokens (ty, m, nm) =
     NAME ty # (case m of None \<Rightarrow> [] | Some c \<Rightarrow> [LIT c]) @ [NAME nm]"

fun field_list_tokens :: "written_field list \<Rightarrow> bool \<Rightarrow> token list" where
  "field_list_tokens [] comma = []"
| "field_list_tokens (f # fs) comma =
     field_tokens f @ concat (map (\<lambda>g. LIT CHR '','' # field_tokens g) fs) @
     (if comma then [LIT CHR '',''] else [])"

fun clause_tokens :: "written_clause \<Rightarrow> token list" where
  "clause_tokens No_clause = []"
| "clause_tokens Inherit_clause = [LIT CHR '':'', INHERIT]"
| "clause_tokens (List_clause fs comma) =
     LIT CHR '':'' # LIT CHR ''['' # field_list_tokens fs comma @ [LIT CHR '']'']"

fun declaration_tokens :: "written_declaration \<Rightarrow> token list" where
  "declaration_tokens (n, par, cl) =
     NAME n #
     (case par of None \<Rightarrow> [] | Some p \<Rightarrow> [LIT CHR ''('', NAME p, LIT CHR '')'']) @
     clause_tokens cl"

text \<open>The values that the grammar rules give to what is written.\<close>

fun field_value :: "written_field \<Rightarrow> field" where
  "field_value (ty, m, nm) = p_field ty (p_modifier m) nm"

fun clause_value :: "written_clause \<Rightarrow> node_fields" where
  "clause_value No_clause = p_colon_fields_opt None"
| "clause_value Inherit_clause = p_colon_fields_opt (Some Inherit)"
| "clause_value (List_clause fs comma) = p_colon_fields_opt (Some (FieldList (map field_value fs)))"

fun well_written :: "written_declaration \<Rightarrow> bool" where
  "well_written (n, par, List_clause fs comma) = (\<forall>f \<in> set fs. fst (snd f) \<in> modifier_suffixes)"
| "well_written (n, par, cl) = True"

text \<open>
  \<^verbatim>\<open>p_declaration\<close> applied to the declarations in their order, from the set of names seen
  and the definitions built so far.
\<close>

fun declarations ::
  "string set \<Rightarrow> Definition list \<Rightarrow> written_declaration list
     \<Rightarrow> parser_error + Definition list" where
  "declarations seen_node_names ds [] = Inr ds"
| "declarations seen_node_names ds ((n, par, cl) # rest) =
     (case p_declaration seen_node_names n par (clause_value cl) of
        Inl e \<Rightarrow> Inl e
      | Inr (seen', d) \<Rightarrow> declarations seen' (ds @ [d]) rest)"


subsection \<open>Notions for the properties\<close>

text \<open>The lines of a text, as \<^verbatim>\<open>str.split\<close> at line feeds gives them, and those that open a class.\<close>

fun split_lines :: "string \<Rightarrow> string list" where
  "split_lines [] = [[]]"
| "split_lines (c # cs) =
     (if c = CHR 0x0A then [] # split_lines cs
      else (case split_lines cs of l # ls \<Rightarrow> (c # l) # ls | [] \<Rightarrow> [[c]]))"

definition class_lines :: "string \<Rightarrow> string list" where
  "class_lines s = filter (prefix ''class '') (split_lines s)"

text \<open>
  A definition whose node name, parent and field types have no line feed; the names that the
  lexer gives are runs of word characters, so the definitions of the parser are such.
\<close>

definition types_on_one_line :: "node_fields \<Rightarrow> bool" where
  "types_on_one_line fs =
     (case fs of Inherit \<Rightarrow> True
      | FieldList li \<Rightarrow> list_all (\<lambda>(nm, ty, md). CHR 0x0A \<notin> set ty) li)"

definition on_one_line :: "Definition \<Rightarrow> bool" where
  "on_one_line d \<longleftrightarrow>
     CHR 0x0A \<notin> set (name d) \<and>
     (case parent d of None \<Rightarrow> True | Some p \<Rightarrow> CHR 0x0A \<notin> set p) \<and>
     types_on_one_line (fields d)"

text \<open>
  A comment begins with \<^verbatim>\<open>#\<close> and runs to the end of its line. The text with every comment
  removed: each line is cut at its first \<^verbatim>\<open>#\<close>, and the lines are put together again with
  their line feeds.
\<close>

definition without_comments :: "string \<Rightarrow> string" where
  "without_comments src =
     join [CHR 0x0A] (map (takeWhile (\<lambda>c. c \<noteq> CHR ''#'')) (split_lines src))"

text \<open>The names of a list of tokens have no line feed.\<close>

definition names_on_one_line :: "token list \<Rightarrow> bool" where
  "names_on_one_line ts \<longleftrightarrow> (\<forall>s. NAME s \<in> set ts \<longrightarrow> CHR 0x0A \<notin> set s)"

text \<open>The line that \<^verbatim>\<open>_prettify_list\<close> writes for a field, and the first line of a class.\<close>

definition field_line :: "field \<Rightarrow> string" where
  "field_line f = (case f of (nm, ty, md) \<Rightarrow>
     ''            ('' @ py_repr nm @ '', '' @ ty @ '', '' @ py_repr md @ ''),'')"

definition class_header :: "Definition \<Rightarrow> string" where
  "class_header d =
     ''class '' @ name d @ ''('' @
       (case parent d of None \<Rightarrow> ''object'' | Some p \<Rightarrow> if p = [] then ''object'' else p) @
       ''):''"

text \<open>
  The occurrences of an element of a list after its first one, in their order: the element at
  a position is kept where it is one of the elements before that position.
\<close>

definition repeated_occurrences :: "'a list \<Rightarrow> 'a list" where
  "repeated_occurrences xs =
     concat (map (\<lambda>i. if xs ! i \<in> set (take i xs) then [xs ! i] else []) [0..<length xs])"

section \<open>Properties\<close>

subsection \<open>The parser on written declarations\<close>

text \<open>
  On the tokens of well-written declarations the parser computes what \<open>declarations\<close>
  does: it applies \<^verbatim>\<open>p_declaration\<close> to the declarations in their order.
\<close>

lemma parse_field_tokens:
  "fst (snd f) \<in> modifier_suffixes \<Longrightarrow>
   parse_field (field_tokens f @ rest) = Inr (field_value f, rest)"
  by (cases f) (auto simp: parse_field_def modifier_suffixes_def)

lemma parse_more_fields_maybe_tokens:
  "\<forall>f \<in> set fs. fst (snd f) \<in> modifier_suffixes \<Longrightarrow>
   parse_more_fields_maybe li
     (concat (map (\<lambda>g. LIT CHR '','' # field_tokens g) fs) @
      (if comma then [LIT CHR '',''] else []) @ LIT CHR '']'' # rest)
   = Inr (li @ map field_value fs, rest)"
proof (induction fs arbitrary: li)
  case Nil
  show ?case by simp
next
  case (Cons g fs)
  obtain ty m nm where g: "g = (ty, m, nm)"
    by (cases g)
  from Cons.prems have m: "m \<in> modifier_suffixes"
    and others: "\<forall>f \<in> set fs. fst (snd f) \<in> modifier_suffixes"
    by (auto simp: g)
  from m Cons.IH [OF others, of "li @ [field_value g]"] show ?case
    by (auto simp: g parse_field_def modifier_suffixes_def)
qed

lemma parse_field_list_tokens:
  assumes "\<forall>f \<in> set fs. fst (snd f) \<in> modifier_suffixes"
  shows "parse_field_list (field_list_tokens fs comma @ LIT CHR '']'' # rest)
         = Inr (map field_value fs, rest)"
proof (cases fs)
  case Nil
  then show ?thesis by (simp add: parse_field_list_def)
next
  case (Cons f fs')
  obtain ty m nm where f: "f = (ty, m, nm)"
    by (cases f)
  from assms Cons have m: "m \<in> modifier_suffixes"
    and others: "\<forall>f \<in> set fs'. fst (snd f) \<in> modifier_suffixes"
    by (auto simp: f)
  from m parse_more_fields_maybe_tokens [OF others, of "[field_value f]" comma rest]
  show ?thesis
    by (auto simp: Cons f parse_field_list_def parse_field_def modifier_suffixes_def)
qed

lemma parse_colon_fields_opt_tokens:
  assumes "well_written (n, par, cl)" and "at_declaration_end rest"
  shows "parse_colon_fields_opt (clause_tokens cl @ rest) = Inr (clause_value cl, rest)"
proof (cases cl)
  case No_clause
  with assms(2) show ?thesis
    by (cases rest rule: at_declaration_end.cases) (simp_all add: parse_colon_fields_opt_def)
next
  case Inherit_clause
  with assms(2) show ?thesis
    by (simp add: parse_colon_fields_opt_def parse_fields_def)
next
  case (List_clause fs comma)
  with assms(1) have "\<forall>f \<in> set fs. fst (snd f) \<in> modifier_suffixes"
    by simp
  from parse_field_list_tokens [OF this, of comma rest] assms(2) List_clause show ?thesis
    by (simp add: parse_colon_fields_opt_def parse_fields_def)
qed

lemma parse_parent_class_opt_tokens:
  assumes "at_declaration_end rest"
  shows "parse_parent_class_opt
           ((case par of None \<Rightarrow> [] | Some p \<Rightarrow> [LIT CHR ''('', NAME p, LIT CHR '')'']) @
            clause_tokens cl @ rest)
         = Inr (par, clause_tokens cl @ rest)"
proof (cases par)
  case (Some p)
  then show ?thesis by (simp add: parse_parent_class_opt_def)
next
  case None
  show ?thesis
  proof (cases cl)
    case No_clause
    with None assms show ?thesis
      by (cases rest rule: at_declaration_end.cases) (simp_all add: parse_parent_class_opt_def)
  qed (simp_all add: None parse_parent_class_opt_def)
qed

lemma declaration_step:
  assumes "well_written (n, par, cl)" and "at_declaration_end rest"
  shows "zero_or_more_declaration seen ds (declaration_tokens (n, par, cl) @ rest) =
           (case p_declaration seen n par (clause_value cl) of
              Inl e \<Rightarrow> Inl e
            | Inr (seen', d) \<Rightarrow> zero_or_more_declaration seen' (ds @ [d]) rest)"
  using parse_parent_class_opt_tokens [OF assms(2), of par cl]
    parse_colon_fields_opt_tokens [OF assms]
  by simp

lemma at_declaration_end_tokens:
  "at_declaration_end (concat (map declaration_tokens wds) @ rest) =
     (if wds = [] then at_declaration_end rest else True)"
  by (cases wds) auto

lemma zero_or_more_declaration_tokens:
  "\<forall>d \<in> set wds. well_written d \<Longrightarrow>
   zero_or_more_declaration seen ds (concat (map declaration_tokens wds)) =
     declarations seen ds wds"
proof (induction wds arbitrary: seen ds)
  case Nil
  show ?case by simp
next
  case (Cons wd wds)
  obtain n par cl where wd: "wd = (n, par, cl)"
    by (cases wd)
  from Cons.prems have ww: "well_written (n, par, cl)"
    and others: "\<forall>d \<in> set wds. well_written d"
    by (auto simp: wd)
  have "at_declaration_end (concat (map declaration_tokens wds))"
    using at_declaration_end_tokens [of wds "[]"] by (simp split: if_splits)
  from declaration_step [OF ww this, of seen ds] Cons.IH [OF others] show ?case
    by (simp add: wd split: sum.splits prod.splits del: declaration_tokens.simps)
qed

lemma p_declaration_seen:
  "p_declaration seen n par fs = Inr (seen', d) \<Longrightarrow>
   seen' = insert n seen \<and> d = Definition n par fs \<and> n \<notin> seen"
  by (auto simp: p_declaration_def split: if_splits node_fields.splits)

lemma duplicated_fields_append:
  "duplicated_fields li seen_fields dups = dups @ duplicated_fields li seen_fields []"
proof (induction li arbitrary: seen_fields dups)
  case Nil
  show ?case by simp
next
  case (Cons f li)
  obtain nm ty md where f: "f = (nm, ty, md)"
    by (cases f)
  show ?case
    using Cons.IH [of seen_fields "dups @ [nm]"] Cons.IH [of seen_fields "[nm]"]
      Cons.IH [of "seen_fields @ [nm]" dups]
    by (simp add: f)
qed

lemma duplicated_fields_empty:
  "duplicated_fields li seen_fields [] = [] \<longleftrightarrow>
     distinct (map fst li) \<and> set (map fst li) \<inter> set seen_fields = {}"
proof (induction li arbitrary: seen_fields)
  case Nil
  show ?case by simp
next
  case (Cons f li)
  obtain nm ty md where f: "f = (nm, ty, md)"
    by (cases f)
  show ?case
    using Cons.IH [of seen_fields] Cons.IH [of "seen_fields @ [nm]"]
      duplicated_fields_append [of li seen_fields "[nm]"]
    by (auto simp: f)
qed

lemma count_duplicated_fields:
  "count_list (duplicated_fields li seen_fields []) x =
     (if x \<in> set seen_fields then count_list (map fst li) x
      else count_list (map fst li) x - 1)"
proof (induction li arbitrary: seen_fields)
  case Nil
  show ?case by simp
next
  case (Cons f li)
  obtain nm ty md where f: "f = (nm, ty, md)"
    by (cases f)
  show ?case
    using Cons.IH [of seen_fields] Cons.IH [of "seen_fields @ [nm]"]
      duplicated_fields_append [of li seen_fields "[nm]"]
    by (auto simp: f)
qed

lemma remove_comments_no_hash: "CHR ''#'' \<notin> set (remove_comments src)"
  by (induction src rule: remove_comments.induct) auto

lemma remove_comments_id: "CHR ''#'' \<notin> set src \<Longrightarrow> remove_comments src = src"
  by (induction src) auto

lemma parse_remove_comments:
  "parse (remove_comments src) = parse src \<and> CHR ''#'' \<notin> set (remove_comments src)"
  using remove_comments_id [OF remove_comments_no_hash, of src] remove_comments_no_hash [of src]
  by (simp add: parse_def)

subsection \<open>Modifiers\<close>

text \<open>
  C1, as the code has it: the suffix \<^verbatim>\<open>?\<close> gives \<^verbatim>\<open>OPTIONAL\<close>, \<^verbatim>\<open>+\<close> gives \<^verbatim>\<open>ONE_OR_MORE\<close>,
  \<^verbatim>\<open>*\<close> gives \<^verbatim>\<open>ZERO_OR_MORE\<close> and no suffix gives \<^verbatim>\<open>NEEDED\<close>; the mapping is a bijection
  between the four ways to write a modifier and these four names; and in a field list every
  field gets the modifier of its own suffix, whatever its place in the list.
\<close>

theorem modifier_mapping:
  assumes "\<forall>f \<in> set fs. fst (snd f) \<in> modifier_suffixes"
  shows "p_modifier (Some CHR ''?'') = ''OPTIONAL'' \<and>
         p_modifier (Some CHR ''+'') = ''ONE_OR_MORE'' \<and>
         p_modifier (Some CHR ''*'') = ''ZERO_OR_MORE'' \<and>
         p_modifier None = ''NEEDED'' \<and>
         bij_betw p_modifier modifier_suffixes
           {''NEEDED'', ''OPTIONAL'', ''ONE_OR_MORE'', ''ZERO_OR_MORE''} \<and>
         parse_field_list (field_list_tokens fs comma @ LIT CHR '']'' # rest) =
           Inr (map (\<lambda>(ty, m, nm). (nm, ty, p_modifier m)) fs, rest)"
proof -
  have pm: "p_modifier (Some CHR ''?'') = ''OPTIONAL''"
    "p_modifier (Some CHR ''+'') = ''ONE_OR_MORE''"
    "p_modifier (Some CHR ''*'') = ''ZERO_OR_MORE''"
    "p_modifier None = ''NEEDED''"
    by (simp_all add: p_modifier_def)
  have "inj_on p_modifier modifier_suffixes"
    by (simp add: modifier_suffixes_def pm)
  moreover have "p_modifier ` modifier_suffixes =
      {''NEEDED'', ''OPTIONAL'', ''ONE_OR_MORE'', ''ZERO_OR_MORE''}"
    by (auto simp: modifier_suffixes_def pm)
  ultimately have bij: "bij_betw p_modifier modifier_suffixes
      {''NEEDED'', ''OPTIONAL'', ''ONE_OR_MORE'', ''ZERO_OR_MORE''}"
    by (simp add: bij_betw_def)
  have "map field_value fs = map (\<lambda>(ty, m, nm). (nm, ty, p_modifier m)) fs"
    by (auto simp: p_field_def)
  with parse_field_list_tokens [OF assms, of comma rest] pm bij show ?thesis
    by simp
qed

theorem modifier_mapping_witness:
  "parse_field_list (lex ''int? a, int+ b, int* c, int d]'') =
     Inr ([(''a'', ''int'', ''OPTIONAL''), (''b'', ''int'', ''ONE_OR_MORE''),
           (''c'', ''int'', ''ZERO_OR_MORE''), (''d'', ''int'', ''NEEDED'')], [])"
  using modifier_mapping [of "[(''int'', Some CHR ''?'', ''a''), (''int'', Some CHR ''+'', ''b''),
      (''int'', Some CHR ''*'', ''c''), (''int'', None, ''d'')]" False "[]"]
  by (simp add: modifier_suffixes_def t_ignore_def literals_def is_word_char_def)

text \<open>
  C1 as stated fails: a field with no suffix does not get the name \<^verbatim>\<open>REQUIRED\<close>.
\<close>

theorem absent_modifier_counterexample:
  "p_modifier None \<noteq> ''REQUIRED''"
  by (simp add: p_modifier_def)

subsection \<open>Declarations with no clause\<close>

text \<open>
  C7: a declaration with no \<^verbatim>\<open>:\<close> clause, of a name not declared before, is accepted; its
  definition has the empty list of fields, as if \<^verbatim>\<open>: []\<close> had been written, and the class
  generated for it returns the list \<^verbatim>\<open>[]\<close> from \<^verbatim>\<open>_fields\<close>.
\<close>

theorem no_clause_is_empty_list:
  assumes "n \<notin> seen" and "at_declaration_end rest"
  shows "zero_or_more_declaration seen ds (declaration_tokens (n, par, No_clause) @ rest) =
           zero_or_more_declaration (insert n seen)
             (ds @ [Definition n par (FieldList [])]) rest \<and>
         zero_or_more_declaration seen ds (declaration_tokens (n, par, No_clause) @ rest) =
           zero_or_more_declaration seen ds
             (declaration_tokens (n, par, List_clause [] False) @ rest) \<and>
         p_colon_fields_opt None = FieldList [] \<and>
         generate_class (Definition n par (FieldList [])) =
           ''class '' @ n @ ''('' @
             (case par of None \<Rightarrow> ''object'' | Some p \<Rightarrow> if p = [] then ''object'' else p) @
             ''):'' @ [CHR 0x0A] @
           ''    @fields_decorator'' @ [CHR 0x0A] @
           ''    def _fields(cls):'' @ [CHR 0x0A] @
           ''        return []''"
proof -
  have "well_written (n, par, No_clause)" and "well_written (n, par, List_clause [] False)"
    by simp_all
  from declaration_step [OF this(1) assms(2), of seen ds]
    declaration_step [OF this(2) assms(2), of seen ds] assms(1)
  show ?thesis
    by (simp add: p_declaration_def p_colon_fields_opt_def generate_class_def class_declaration_def field_declaration_def prettify_list_def
          del: declaration_tokens.simps)
qed

theorem no_clause_is_empty_list_witness:
  "parse ''Leaf(Node)'' = Inr [Definition ''Leaf'' (Some ''Node'') (FieldList [])] \<and>
   generate_class (Definition ''Leaf'' (Some ''Node'') (FieldList [])) =
     ''class Leaf(Node):'' @ [CHR 0x0A] @
     ''    @fields_decorator'' @ [CHR 0x0A] @
     ''    def _fields(cls):'' @ [CHR 0x0A] @
     ''        return []''"
  using no_clause_is_empty_list [of "''Leaf''" "{}" "[]" "[]" "Some ''Node''"]
  by (simp add: parse_def t_ignore_def literals_def is_word_char_def)

subsection \<open>Inheriting declarations\<close>

text \<open>
  C4: a declaration \<^verbatim>\<open>Name: inherit\<close> of a name not declared before fails with the error
  about the missing parent, which names the node; \<^verbatim>\<open>Name(Parent): inherit\<close> is accepted, and
  the body of the class generated for it is \<^verbatim>\<open>pass\<close>.
\<close>

theorem inherit_needs_parent:
  assumes "n \<notin> seen" and "at_declaration_end rest"
  shows "zero_or_more_declaration seen ds
           (declaration_tokens (n, None, Inherit_clause) @ rest) =
           Inl (Inheriting_without_parent n) \<and>
         zero_or_more_declaration seen ds
           (declaration_tokens (n, Some p, Inherit_clause) @ rest) =
           zero_or_more_declaration (insert n seen)
             (ds @ [Definition n (Some p) Inherit]) rest \<and>
         generate_class (Definition n (Some p) Inherit) =
           ''class '' @ n @ ''('' @ (if p = [] then ''object'' else p) @ ''):'' @ [CHR 0x0A] @
           ''    pass''"
proof -
  have "well_written (n, None, Inherit_clause)" and "well_written (n, Some p, Inherit_clause)"
    by simp_all
  from declaration_step [OF this(1) assms(2), of seen ds]
    declaration_step [OF this(2) assms(2), of seen ds] assms(1)
  show ?thesis
    by (simp add: p_declaration_def p_colon_fields_opt_def generate_class_def class_declaration_def field_declaration_def
          del: declaration_tokens.simps)
qed

theorem inherit_needs_parent_witness:
  "parse ''Foo: inherit'' = Inl (Inheriting_without_parent ''Foo'') \<and>
   parse ''Foo(Bar): inherit'' = Inr [Definition ''Foo'' (Some ''Bar'') Inherit] \<and>
   generate_class (Definition ''Foo'' (Some ''Bar'') Inherit) =
     ''class Foo(Bar):'' @ [CHR 0x0A] @ ''    pass''"
  using inherit_needs_parent [of "''Foo''" "{}" "[]" "[]" "''Bar''"]
  by (simp add: parse_def t_ignore_def literals_def is_word_char_def)

subsection \<open>The checks of a declaration\<close>

lemma declarations_distinct:
  "declarations seen ds wds = Inr ds' \<Longrightarrow>
   distinct (map fst wds) \<and> set (map fst wds) \<inter> seen = {}"
proof (induction wds arbitrary: seen ds)
  case Nil
  show ?case by simp
next
  case (Cons wd wds)
  obtain n par cl where wd: "wd = (n, par, cl)"
    by (cases wd)
  from Cons.prems obtain seen' d
    where pd: "p_declaration seen n par (clause_value cl) = Inr (seen', d)"
      and more: "declarations seen' (ds @ [d]) wds = Inr ds'"
    by (auto simp: wd split: sum.splits)
  from p_declaration_seen [OF pd] have "seen' = insert n seen" and "n \<notin> seen"
    by simp_all
  with Cons.IH [OF more] show ?case
    by (auto simp: wd)
qed

lemma declarations_append:
  "declarations seen ds (xs @ ys) =
     (case declarations seen ds xs of
        Inl e \<Rightarrow> Inl e
      | Inr ds' \<Rightarrow> declarations (seen \<union> set (map fst xs)) ds' ys)"
proof (induction xs arbitrary: seen ds)
  case Nil
  show ?case by simp
next
  case (Cons wd xs)
  obtain n par cl where wd: "wd = (n, par, cl)"
    by (cases wd)
  show ?case
  proof (cases "p_declaration seen n par (clause_value cl)")
    case (Inl e)
    then show ?thesis by (simp add: wd)
  next
    case (Inr r)
    obtain seen' d where r: "r = (seen', d)"
      by (cases r)
    from p_declaration_seen [OF Inr [unfolded r]] have s: "seen' = insert n seen"
      by simp
    from Cons.IH [of seen' "ds @ [d]"] Inr r s show ?thesis
      by (simp add: wd split: sum.splits)
  qed
qed

lemma duplicated_fields_snoc:
  "duplicated_fields (li @ [f]) seen_fields dups =
     duplicated_fields li seen_fields dups @
     (if fst f \<in> set seen_fields \<union> fst ` set li then [fst f] else [])"
proof (induction li arbitrary: seen_fields dups)
  case Nil
  show ?case by (cases f) simp
next
  case (Cons g li)
  obtain nm ty md where g: "g = (nm, ty, md)"
    by (cases g)
  show ?case
    using Cons.IH [of seen_fields "dups @ [nm]"] Cons.IH [of "seen_fields @ [nm]" dups]
    by (auto simp: g)
qed

lemma repeated_occurrences_snoc:
  "repeated_occurrences (xs @ [x]) = repeated_occurrences xs @ (if x \<in> set xs then [x] else [])"
proof -
  let ?g = "\<lambda>ys i. if ys ! i \<in> set (take i ys) then [ys ! i] else []"
  have earlier: "map (?g (xs @ [x])) [0..<length xs] = map (?g xs) [0..<length xs]"
    by (rule map_cong) (simp_all add: nth_append)
  have last: "?g (xs @ [x]) (length xs) = (if x \<in> set xs then [x] else [])"
    by simp
  have "concat (map (?g (xs @ [x])) [0..<length (xs @ [x])]) =
      concat (map (?g (xs @ [x])) ([0..<length xs] @ [length xs]))"
    by simp
  also have "\<dots> = concat (map (?g (xs @ [x])) [0..<length xs]) @ ?g (xs @ [x]) (length xs)"
    by (simp only: map_append concat_append list.map concat.simps append_Nil2)
  also have "\<dots> = concat (map (?g xs) [0..<length xs]) @ (if x \<in> set xs then [x] else [])"
    by (simp only: earlier last)
  finally show ?thesis
    by (simp only: repeated_occurrences_def)
qed

lemma duplicated_fields_positions:
  "duplicated_fields li [] [] = repeated_occurrences (map fst li)"
proof (induction li rule: rev_induct)
  case Nil
  show ?case by (simp add: repeated_occurrences_def)
next
  case (snoc f li)
  have "repeated_occurrences (map fst (li @ [f])) =
      repeated_occurrences (map fst li) @ (if fst f \<in> set (map fst li) then [fst f] else [])"
    using repeated_occurrences_snoc [of "map fst li" "fst f"] by simp
  with snoc.IH show ?case
    by (simp add: duplicated_fields_snoc)
qed

lemma field_names: "fst \<circ> field_value = (\<lambda>(ty, m, nm). nm)"
  by (auto simp: p_field_def fun_eq_iff)


subsection \<open>Fields\<close>



subsection \<open>Repeated node names\<close>

text \<open>
  C3: the tokens of declarations of which two have the same node name are never accepted;
  and when the declarations before the second of the two are accepted, the error is the one
  about multiple declarations of that name, whatever the parent and the clause of the second
  declaration are.
\<close>

theorem duplicate_name_fails:
  assumes ww: "\<forall>d \<in> set wds. well_written d"
    and ij: "i < j" and j: "j < length wds"
    and same: "fst (wds ! i) = fst (wds ! j)"
  shows "(\<exists>e. zero_or_more_declaration {} [] (concat (map declaration_tokens wds)) = Inl e) \<and>
         (\<forall>ds. declarations {} [] (take j wds) = Inr ds \<longrightarrow>
            zero_or_more_declaration {} [] (concat (map declaration_tokens wds)) =
              Inl (Multiple_declarations_of_name (fst (wds ! j))))"
proof -
  have run: "zero_or_more_declaration {} [] (concat (map declaration_tokens wds)) =
      declarations {} [] wds"
    by (rule zero_or_more_declaration_tokens [OF ww])
  have "\<not> distinct (map fst wds)"
    using nth_eq_iff_index_eq [of "map fst wds" i j] ij j same by auto
  then have fails: "\<exists>e. declarations {} [] wds = Inl e"
    using declarations_distinct [of "{}" "[]" wds] by (cases "declarations {} [] wds") auto
  have second: "declarations {} [] wds = Inl (Multiple_declarations_of_name (fst (wds ! j)))"
    if before: "declarations {} [] (take j wds) = Inr ds" for ds
  proof -
    obtain n par cl where wj: "wds ! j = (n, par, cl)"
      by (cases "wds ! j")
    have split: "wds = take j wds @ wds ! j # drop (Suc j) wds"
      by (rule id_take_nth_drop [OF j])
    have "wds ! i \<in> set (take j wds)"
      using ij j by (auto simp: in_set_conv_nth intro!: exI [of _ i])
    then have "n \<in> set (map fst (take j wds))"
      using same wj by force
    then have "declarations (set (map fst (take j wds))) ds (wds ! j # drop (Suc j) wds) =
        Inl (Multiple_declarations_of_name n)"
      by (simp add: wj p_declaration_def)
    with declarations_append [of "{}" "[]" "take j wds" "wds ! j # drop (Suc j) wds"] before
      split wj
    show ?thesis by simp
  qed
  from run fails second show ?thesis
    by simp
qed

theorem duplicate_name_fails_witness:
  "parse ''A: []\<newline>A: [int x]'' = Inl (Multiple_declarations_of_name ''A'')"
  using duplicate_name_fails [of "[(''A'', None, List_clause [] False),
      (''A'', None, List_clause [(''int'', None, ''x'')] False)]" 0 1]
  by (simp add: parse_def t_ignore_def literals_def is_word_char_def modifier_suffixes_def
        p_declaration_def p_colon_fields_opt_def)

subsection \<open>Repeated field names\<close>

text \<open>
  C5: a declaration, of a name not declared before, whose field list has a field name twice
  fails with the error about multiple declarations of attributes; the error names the node
  and lists exactly the field names that are repeated. A declaration that inherits has no
  field list and never gives this error.
\<close>

theorem repeated_field_name_fails:
  assumes wf: "\<forall>f \<in> set fs. fst (snd f) \<in> modifier_suffixes"
    and rep: "\<not> distinct (map (\<lambda>(ty, m, nm). nm) fs)"
    and new: "n \<notin> seen" and next_ok: "at_declaration_end rest"
  shows "(\<exists>dups. zero_or_more_declaration seen ds
             (declaration_tokens (n, par, List_clause fs comma) @ rest) =
             Inl (Multiple_declarations_of_attributes n dups) \<and>
           dups \<noteq> [] \<and>
           set dups = {x. 1 < count_list (map (\<lambda>(ty, m, nm). nm) fs) x}) \<and>
         p_declaration seen n par Inherit \<noteq> Inl (Multiple_declarations_of_attributes n' dups')"
proof -
  let ?li = "map field_value fs"
  let ?dups = "duplicated_fields ?li [] []"
  have ww: "well_written (n, par, List_clause fs comma)"
    using wf by simp
  have nonempty: "?dups \<noteq> []"
    using rep duplicated_fields_empty [of ?li "[]"] by (simp add: field_names)
  have "x \<in> set ?dups \<longleftrightarrow> 1 < count_list (map (\<lambda>(ty, m, nm). nm) fs) x" for x
    using count_duplicated_fields [of ?li "[]" x] count_list_0_iff [of ?dups x]
    by (simp add: field_names) arith
  then have members: "set ?dups = {x. 1 < count_list (map (\<lambda>(ty, m, nm). nm) fs) x}"
    by blast
  have "zero_or_more_declaration seen ds
      (declaration_tokens (n, par, List_clause fs comma) @ rest) =
      Inl (Multiple_declarations_of_attributes n ?dups)"
    using declaration_step [OF ww next_ok, of seen ds] new nonempty
    by (simp add: p_declaration_def p_colon_fields_opt_def del: declaration_tokens.simps)
  with nonempty members show ?thesis
    by (auto simp: p_declaration_def)
qed

theorem repeated_field_name_fails_witness:
  "parse ''Pair: [int x, int x]'' = Inl (Multiple_declarations_of_attributes ''Pair'' [''x''])"
  using repeated_field_name_fails [of "[(''int'', None, ''x''), (''int'', None, ''x'')]"
      "''Pair''" "{}" "[]" "[]" None False]
  by (simp add: parse_def t_ignore_def literals_def is_word_char_def modifier_suffixes_def
        parse_parent_class_opt_def parse_colon_fields_opt_def parse_fields_def
        parse_field_list_def parse_field_def p_declaration_def p_colon_fields_opt_def
        p_field_def)

text \<open>
  C10, as the code has it: for a field list with repeated field names, and so for one with
  several distinct repeated names, the one error raised names every repeated field name, not
  only the first; it lists every occurrence of a field name after its first one, in the order
  of the list, so a name written \<open>k\<close> times is listed \<open>k - 1\<close> times.
\<close>

theorem all_repeated_fields_named:
  assumes wf: "\<forall>f \<in> set fs. fst (snd f) \<in> modifier_suffixes"
    and rep: "\<not> distinct (map (\<lambda>(ty, m, nm). nm) fs)"
    and new: "n \<notin> seen" and next_ok: "at_declaration_end rest"
  shows "\<exists>dups. zero_or_more_declaration seen ds
             (declaration_tokens (n, par, List_clause fs comma) @ rest) =
             Inl (Multiple_declarations_of_attributes n dups) \<and>
           dups = repeated_occurrences (map (\<lambda>(ty, m, nm). nm) fs) \<and>
           (\<forall>x. x \<in> set dups \<longleftrightarrow> 1 < count_list (map (\<lambda>(ty, m, nm). nm) fs) x) \<and>
           (\<forall>x. count_list dups x = count_list (map (\<lambda>(ty, m, nm). nm) fs) x - 1)"
proof -
  let ?li = "map field_value fs"
  let ?dups = "duplicated_fields ?li [] []"
  have ww: "well_written (n, par, List_clause fs comma)"
    using wf by simp
  have nonempty: "?dups \<noteq> []"
    using rep duplicated_fields_empty [of ?li "[]"] by (simp add: field_names)
  have run: "zero_or_more_declaration seen ds
      (declaration_tokens (n, par, List_clause fs comma) @ rest) =
      Inl (Multiple_declarations_of_attributes n ?dups)"
    using declaration_step [OF ww next_ok, of seen ds] new nonempty
    by (simp add: p_declaration_def p_colon_fields_opt_def del: declaration_tokens.simps)
  have positions: "?dups = repeated_occurrences (map (\<lambda>(ty, m, nm). nm) fs)"
    using duplicated_fields_positions [of ?li] by (simp add: field_names)
  have counts: "count_list ?dups x = count_list (map (\<lambda>(ty, m, nm). nm) fs) x - 1" for x
    using count_duplicated_fields [of ?li "[]" x] by (simp add: field_names)
  have members: "x \<in> set ?dups \<longleftrightarrow> 1 < count_list (map (\<lambda>(ty, m, nm). nm) fs) x" for x
    using count_duplicated_fields [of ?li "[]" x] count_list_0_iff [of ?dups x]
    by (simp add: field_names) arith
  from run positions counts members show ?thesis
    by blast
qed

theorem all_repeated_fields_named_witness:
  "parse ''Q: [int a, str b, int a, str b]'' =
     Inl (Multiple_declarations_of_attributes ''Q'' [''a'', ''b''])"
  using all_repeated_fields_named [of "[(''int'', None, ''a''), (''str'', None, ''b''),
      (''int'', None, ''a''), (''str'', None, ''b'')]"
      "''Q''" "{}" "[]" "[]" None False]
  by (simp add: parse_def t_ignore_def literals_def is_word_char_def modifier_suffixes_def
        parse_parent_class_opt_def parse_colon_fields_opt_def parse_fields_def
        parse_field_list_def parse_field_def p_declaration_def p_colon_fields_opt_def
        p_field_def)

text \<open>
  C10 as stated fails: in a field list with the two repeated names \<^verbatim>\<open>x\<close> and \<^verbatim>\<open>y\<close>, where
  \<^verbatim>\<open>x\<close> is written three times, the error lists \<^verbatim>\<open>x\<close> twice, not once.
\<close>

theorem repeated_names_listed_again_counterexample:
  "parse ''P: [int x, int y, int x, int y, int x]'' =
     Inl (Multiple_declarations_of_attributes ''P'' [''x'', ''y'', ''x'']) \<and>
   \<not> distinct [''x'', ''y'', ''x'']"
  by (simp add: parse_def t_ignore_def literals_def is_word_char_def parse_parent_class_opt_def
        parse_colon_fields_opt_def parse_fields_def parse_field_list_def parse_field_def
        p_declaration_def p_colon_fields_opt_def p_field_def)

subsection \<open>The update flag\<close>

lemma generate_loop_keeps_existing:
  "fs p = Some old \<Longrightarrow> snd (generate_loop sd od False files fs) p = Some old"
proof (induction files arbitrary: fs)
  case Nil
  then show ?case by simp
next
  case (Cons h files)
  have written: "(fs(outfile_name od h \<mapsto> t)) p = Some old"
    if "fs (outfile_name od h) = None" for t
    using that Cons.prems by auto
  have skipped: "snd (generate_loop sd od False files fs) p = Some old"
    using Cons.prems by (rule Cons.IH [of fs])
  have replaced: "snd (generate_loop sd od False files (fs(outfile_name od h \<mapsto> t))) p = Some old"
    if "fs (outfile_name od h) = None" for t
    using written [OF that] by (rule Cons.IH [of "fs(outfile_name od h \<mapsto> t)"])
  show ?case
    using skipped replaced Cons.prems
    by (auto split: option.splits sum.splits)
qed

lemma generate_loop_frame:
  "generate_loop sd od u files fs = (e, fs') \<Longrightarrow>
   \<forall>g \<in> set files. outfile_name od g \<noteq> p \<Longrightarrow> fs' p = fs p"
  by (induction files arbitrary: fs) (auto split: option.splits sum.splits if_splits)

lemma suffix_path_join: "suffix b (path_join a b)"
  by (auto simp: path_join_def suffix_def)

lemma infile_not_outfile:
  assumes "suffix ''.tree'' f"
  shows "infile_name sd f \<noteq> outfile_name od g"
proof
  assume eq: "infile_name sd f = outfile_name od g"
  have "suffix ''.tree'' (infile_name sd f)"
    using assms suffix_path_join [of f sd] by (auto simp: infile_name_def intro: suffix_order.trans)
  then have "last (infile_name sd f) = CHR ''e''"
    by (auto simp: suffix_def)
  moreover have "suffix ''.py'' (outfile_name od g)"
    using suffix_path_join [of "take (length g - 5) g @ ''.py''" od]
    by (auto simp: outfile_name_def suffix_def)
  then have "last (outfile_name od g) = CHR ''y''"
    by (auto simp: suffix_def)
  ultimately show False
    using eq by simp
qed

lemma outfile_name_inj:
  assumes f: "suffix ''.tree'' f" "CHR ''/'' \<notin> set f"
    and g: "suffix ''.tree'' g" "CHR ''/'' \<notin> set g"
    and eq: "outfile_name od f = outfile_name od g"
  shows "f = g"
proof -
  let ?stem = "\<lambda>h. take (length h - 5) h"
  have plain: "hd (?stem h @ ''.py'') \<noteq> CHR ''/''" if "CHR ''/'' \<notin> set h" for h :: string
    using that set_take_subset [of "length h - 5" h] by (cases "?stem h") auto
  have whole: "h = ?stem h @ ''.tree''" if "suffix ''.tree'' h" for h :: string
    using that by (auto simp: suffix_def)
  from eq plain [OF f(2)] plain [OF g(2)] have "?stem f @ ''.py'' = ?stem g @ ''.py''"
    by (auto simp: outfile_name_def path_join_def split: if_splits)
  then have "?stem f = ?stem g"
    by simp
  with whole [OF f(1)] whole [OF g(1)] show ?thesis
    by metis
qed

lemma generate_loop_regenerates:
  assumes "generate_loop sd od True files fs = (None, fs')"
    and "\<forall>f \<in> set files. suffix ''.tree'' f \<and> CHR ''/'' \<notin> set f"
    and "f \<in> set files"
  shows "\<exists>src data. fs (infile_name sd f) = Some src \<and> parse src = Inr data \<and>
           fs' (outfile_name od f) = Some (written_text data)"
  using assms
proof (induction files arbitrary: fs)
  case Nil
  then show ?case by simp
next
  case (Cons h files)
  from Cons.prems(1) obtain src data
    where src: "fs (infile_name sd h) = Some src" and data: "parse src = Inr data"
      and more: "generate_loop sd od True files
                   (fs(outfile_name od h \<mapsto> written_text data)) = (None, fs')"
    by (auto split: option.splits sum.splits)
  let ?fs1 = "fs(outfile_name od h \<mapsto> written_text data)"
  from Cons.prems(2) have plain: "\<forall>f \<in> set files. suffix ''.tree'' f \<and> CHR ''/'' \<notin> set f"
    and h: "suffix ''.tree'' h" "CHR ''/'' \<notin> set h"
    by simp_all
  have input: "?fs1 (infile_name sd k) = fs (infile_name sd k)" if "suffix ''.tree'' k" for k
    using infile_not_outfile [OF that, of sd od h] by simp
  show ?case
  proof (cases "f \<in> set files")
    case True
    from Cons.IH [OF more plain True] input [of f] plain True show ?thesis
      by auto
  next
    case False
    with Cons.prems(3) have fh: "f = h"
      by simp
    have "\<forall>g \<in> set files. outfile_name od g \<noteq> outfile_name od h"
      using outfile_name_inj [OF _ _ h] plain False fh by blast
    from generate_loop_frame [OF more this] have "fs' (outfile_name od h) = Some (written_text data)"
      by simp
    with src data fh show ?thesis
      by simp
  qed
qed

text \<open>
  C8: with the update flag false, every file that exists before \<^verbatim>\<open>generate\<close> runs has the same
  text after it, also when the run ends with an exception; and a declaration file whose output
  file exists is skipped, without being read. With the flag true no file is skipped: when the
  run ends without an exception, the output file of every listed declaration file holds the
  text generated from that file. The names of a directory listing have no separator.
\<close>

theorem update_flag:
  assumes plain: "\<forall>f \<in> set listing. CHR ''/'' \<notin> set f"
  shows "(fs p = Some old \<longrightarrow> snd (generate listing sd od False fs) p = Some old) \<and>
         (fs (outfile_name out f) \<noteq> None \<longrightarrow>
            generate_loop sd out False (f # rest) fs = generate_loop sd out False rest fs) \<and>
         (generate listing sd od True fs = (None, fs') \<longrightarrow>
          f \<in> set listing \<longrightarrow> suffix ''.tree'' f \<longrightarrow>
            (\<exists>src data. fs (infile_name sd f) = Some src \<and> parse src = Inr data \<and>
               fs' (outfile_name (case od of None \<Rightarrow> sd | Some d \<Rightarrow> d) f) =
                 Some (written_text data)))"
proof -
  have files: "\<forall>f \<in> set (filter (suffix ''.tree'') listing).
      suffix ''.tree'' f \<and> CHR ''/'' \<notin> set f"
    using plain by simp
  show ?thesis
    using generate_loop_keeps_existing [of fs p old sd _ "filter (suffix ''.tree'') listing"]
      generate_loop_regenerates [OF _ files, of sd _ fs fs' f]
    by (simp add: generate_def)
qed

theorem update_flag_witness:
  "snd (generate [''a.tree'', ''notes.txt''] ''d'' None False
          [''d/a.tree'' \<mapsto> ''A: [int x]'', ''d/a.py'' \<mapsto> ''old'']) ''d/a.py'' = Some ''old'' \<and>
   snd (generate [''a.tree'', ''notes.txt''] ''d'' None True
          [''d/a.tree'' \<mapsto> ''A: [int x]'', ''d/a.py'' \<mapsto> ''old'']) ''d/a.py'' =
     Some (written_text [Definition ''A'' None (FieldList [(''x'', ''int'', ''NEEDED'')])])"
  using update_flag [where listing = "[''a.tree'', ''notes.txt'']" and sd = "''d''" and od = None
      and fs = "[''d/a.tree'' \<mapsto> ''A: [int x]'', ''d/a.py'' \<mapsto> ''old'']"
      and p = "''d/a.py''" and old = "''old''" and f = "''a.tree''" and out = "''d''"
      and rest = "[]"
      and fs' = "[''d/a.tree'' \<mapsto> ''A: [int x]'', ''d/a.py'' \<mapsto>
          written_text [Definition ''A'' None (FieldList [(''x'', ''int'', ''NEEDED'')])]]"]
  by (simp add: generate_def infile_name_def outfile_name_def path_join_def suffix_def
        parse_def t_ignore_def literals_def is_word_char_def
        parse_parent_class_opt_def parse_colon_fields_opt_def parse_fields_def
        parse_field_list_def parse_field_def p_declaration_def p_colon_fields_opt_def
        p_field_def p_modifier_def)

subsection \<open>The generated text\<close>

lemma split_lines_not_Nil [simp]: "split_lines s \<noteq> []"
  by (induction s) (auto split: list.splits)

lemma split_lines_append: "split_lines (a @ CHR 0x0A # b) = split_lines a @ split_lines b"
  by (induction a) (auto split: list.splits)

lemma split_lines_one_line: "CHR 0x0A \<notin> set s \<Longrightarrow> split_lines s = [s]"
  by (induction s) auto

lemma split_lines_prepend:
  "CHR 0x0A \<notin> set p \<Longrightarrow> split_lines (p @ s) = (p @ hd (split_lines s)) # tl (split_lines s)"
  by (induction p) (auto split: list.splits)

lemma split_lines_join:
  "ls \<noteq> [] \<Longrightarrow> \<forall>l \<in> set ls. CHR 0x0A \<notin> set l \<Longrightarrow> split_lines (join [CHR 0x0A] ls) = ls"
  by (induction ls rule: induct_list012) (simp_all add: split_lines_one_line split_lines_append)

lemma class_lines_append: "class_lines (a @ CHR 0x0A # b) = class_lines a @ class_lines b"
  by (simp add: class_lines_def split_lines_append)

lemma class_lines_newline: "class_lines (CHR 0x0A # s) = class_lines s"
  by (simp add: class_lines_def)

lemma class_lines_Nil: "class_lines [] = []"
  by (simp add: class_lines_def)

lemma hex_digit_not_newline: "hex_digit n \<noteq> CHR 0x0A"
proof -
  have "hex_digit n \<in> set ''0123456789abcdef''"
    unfolding hex_digit_def by (rule nth_mem) simp
  then show ?thesis by auto
qed

lemma repr_char_one_line: "q \<noteq> CHR 0x0A \<Longrightarrow> CHR 0x0A \<notin> set (repr_char q c)"
  using hex_digit_not_newline [of "of_char c div 16"] hex_digit_not_newline [of "of_char c"]
  by (auto simp: repr_char_def)

lemma py_repr_one_line: "CHR 0x0A \<notin> set (py_repr s)"
  using repr_char_one_line [of "CHR 0x27"] repr_char_one_line [of "CHR 0x22"]
  by (auto simp: py_repr_def Let_def)

lemma prettify_list_lines:
  assumes "li \<noteq> []" and "list_all (\<lambda>(nm, ty, md). CHR 0x0A \<notin> set ty) li"
  shows "split_lines (prettify_list li) = ''['' # map field_line li @ [''        ]'']"
proof -
  have "prettify_list li = join [CHR 0x0A] (''['' # map field_line li @ [''        ]''])"
    using assms(1) by (simp add: prettify_list_def indent_def field_line_def [abs_def])
  moreover have "\<forall>l \<in> set (''['' # map field_line li @ [''        ]'']). CHR 0x0A \<notin> set l"
    using assms(2) py_repr_one_line by (auto simp: field_line_def list_all_iff)
  ultimately show ?thesis
    by (simp add: split_lines_join)
qed

lemma field_declaration_lines:
  assumes "types_on_one_line (fields d)"
  shows "filter (prefix ''class '') (split_lines (field_declaration d)) = [] \<and>
         [] \<notin> set (split_lines (field_declaration d))"
proof (cases "fields d")
  case Inherit
  then show ?thesis
    by (simp add: field_declaration_def)
next
  case (FieldList li)
  have head: "split_lines (field_declaration d) =
      [''    @fields_decorator'', ''    def _fields(cls):''] @
      split_lines (''        return '' @ prettify_list li)"
    using split_lines_append [of "''    @fields_decorator''"
        "''    def _fields(cls):'' @ [CHR 0x0A] @ ''        return '' @ prettify_list li"]
      split_lines_append [of "''    def _fields(cls):''"
        "''        return '' @ prettify_list li"]
    by (simp add: field_declaration_def FieldList)
  show ?thesis
  proof (cases "li = []")
    case True
    then show ?thesis
      by (simp add: head prettify_list_def)
  next
    case False
    from assms FieldList have types: "list_all (\<lambda>(nm, ty, md). CHR 0x0A \<notin> set ty) li"
      by (simp add: types_on_one_line_def)
    have "split_lines (''        return '' @ prettify_list li) =
        ''        return ['' # map field_line li @ [''        ]'']"
      using split_lines_prepend [of "''        return ''" "prettify_list li"]
        prettify_list_lines [OF False types]
      by simp
    with head have lines: "split_lines (field_declaration d) =
        [''    @fields_decorator'', ''    def _fields(cls):'', ''        return [''] @
        map field_line li @ [''        ]'']"
      by (simp only: append.simps)
    have "\<forall>l \<in> set (map field_line li). \<not> prefix ''class '' l \<and> l \<noteq> []"
      by (auto simp: field_line_def)
    then have "filter (prefix ''class '') (map field_line li) = []"
      and "[] \<notin> set (map field_line li)"
      by (auto simp: filter_empty_conv)
    then show ?thesis
      by (simp add: lines)
  qed
qed

lemma generate_class_lines:
  assumes "on_one_line d"
  shows "class_lines (generate_class d) = [class_header d] \<and>
         [] \<notin> set (split_lines (generate_class d))"
proof -
  have whole: "generate_class d = class_header d @ CHR 0x0A # field_declaration d"
    by (simp add: generate_class_def class_declaration_def class_header_def)
  have "CHR 0x0A \<notin> set (class_header d)"
    using assms by (auto simp: class_header_def on_one_line_def split: option.splits)
  then have header: "split_lines (class_header d) = [class_header d]"
    by (rule split_lines_one_line)
  have "prefix ''class '' (class_header d)" and "class_header d \<noteq> []"
    by (simp_all add: class_header_def)
  with header field_declaration_lines [of d] assms show ?thesis
    by (simp add: whole split_lines_append class_lines_def on_one_line_def)
qed

lemma generate_sources_lines:
  "\<forall>d \<in> set data. on_one_line d \<Longrightarrow>
   class_lines (generate_sources data) = map class_header data"
proof (induction data rule: induct_list012)
  case 1
  show ?case by (simp add: generate_sources_def class_lines_Nil)
next
  case (2 d)
  then show ?case by (simp add: generate_sources_def generate_class_lines)
next
  case (3 d e ds)
  then show ?case
    using class_lines_append [of "generate_class d"
        "CHR 0x0A # CHR 0x0A # join [CHR 0x0A, CHR 0x0A, CHR 0x0A] (map generate_class (e # ds))"]
    by (simp add: generate_sources_def generate_class_lines class_lines_newline)
qed

lemma PREFIX_lines: "class_lines PREFIX = []"
  by (simp add: PREFIX_def class_lines_def split_lines_join)

lemma join_Cons: "join sep (x # xs) = x @ concat (map (\<lambda>y. sep @ y) xs)"
  by (induction xs arbitrary: x) simp_all

lemma generated_text_lines:
  assumes "data \<noteq> []" and "\<forall>d \<in> set data. on_one_line d"
  shows "class_lines (written_text data) =
           map (\<lambda>d. ''class '' @ name d @ ''('' @
                  (case parent d of None \<Rightarrow> ''object''
                   | Some p \<Rightarrow> if p = [] then ''object'' else p) @ ''):'') data \<and>
         generate_sources data =
           generate_class (hd data) @
           concat (map (\<lambda>d. [CHR 0x0A, CHR 0x0A, CHR 0x0A] @ generate_class d) (tl data)) \<and>
         (\<forall>d \<in> set data. [] \<notin> set (split_lines (generate_class d))) \<and>
         last (written_text data) = CHR 0x0A"
proof -
  have "class_lines (written_text data) = class_lines (generate_sources data)"
    using class_lines_append [of PREFIX
        "CHR 0x0A # CHR 0x0A # generate_sources data @ [CHR 0x0A]"]
      class_lines_append [of "generate_sources data" "[]"]
    by (simp add: written_text_def PREFIX_lines class_lines_newline class_lines_Nil)
  with generate_sources_lines [OF assms(2)]
  have lines: "class_lines (written_text data) = map class_header data"
    by simp
  have joined: "generate_sources data =
      generate_class (hd data) @
      concat (map (\<lambda>d. [CHR 0x0A, CHR 0x0A, CHR 0x0A] @ generate_class d) (tl data))"
    using assms(1) join_Cons [of "[CHR 0x0A, CHR 0x0A, CHR 0x0A]" "generate_class (hd data)"
        "map generate_class (tl data)"]
    by (cases data) (simp_all add: generate_sources_def comp_def)
  have "\<forall>d \<in> set data. [] \<notin> set (split_lines (generate_class d))"
    using assms(2) generate_class_lines by blast
  with lines joined show ?thesis
    by (simp add: written_text_def class_header_def)
qed


subsection \<open>The definitions of the parser are on one line\<close>

lemma word_char_not_newline: "is_word_char c \<Longrightarrow> c \<noteq> CHR 0x0A"
  by (auto simp: is_word_char_def)

lemma lex_names: "NAME s \<in> set (lex src) \<Longrightarrow> \<forall>x \<in> set s. is_word_char x"
proof (induction src rule: lex.induct)
  case 1
  then show ?case by simp
next
  case (2 c cs)
  show ?case
  proof (cases "c \<in> set t_ignore")
    case True
    then have "lex (c # cs) = lex cs"
      by (simp only: lex.simps if_True simp_thms)
    with "2.prems" have "NAME s \<in> set (lex cs)"
      by (simp only:)
    from "2.IH"(1) [OF True this] show ?thesis .
  next
    case ign: False
    show ?thesis
    proof (cases "c = CHR 0x0A")
      case True
      with ign have "lex (c # cs) = lex cs"
        by (simp only: lex.simps if_True if_False simp_thms)
      with "2.prems" have "NAME s \<in> set (lex cs)"
        by (simp only:)
      from "2.IH"(2) [OF ign True this] show ?thesis .
    next
      case nl: False
      show ?thesis
      proof (cases "prefix ''inherit'' (c # cs)")
        case True
        with ign nl have "lex (c # cs) = INHERIT # lex (drop 7 (c # cs))"
          by (simp only: lex.simps if_True if_False simp_thms)
        with "2.prems" have "NAME s \<in> set (INHERIT # lex (drop 7 (c # cs)))"
          by (simp only:)
        then have "NAME s = INHERIT \<or> NAME s \<in> set (lex (drop 7 (c # cs)))"
          by (rule set_ConsD)
        then have "NAME s \<in> set (lex (drop 7 (c # cs)))"
          using token.distinct by blast
        from "2.IH"(3) [OF ign nl True this] show ?thesis .
      next
        case kw: False
        show ?thesis
        proof (cases "is_word_char c")
          case True
          with ign nl kw have "lex (c # cs) =
              NAME (takeWhile is_word_char (c # cs)) # lex (dropWhile is_word_char (c # cs))"
            by (simp only: lex.simps if_True if_False simp_thms)
          with "2.prems" have "NAME s \<in> set (NAME (takeWhile is_word_char (c # cs)) #
              lex (dropWhile is_word_char (c # cs)))"
            by (simp only:)
          then have "NAME s = NAME (takeWhile is_word_char (c # cs)) \<or>
              NAME s \<in> set (lex (dropWhile is_word_char (c # cs)))"
            by (rule set_ConsD)
          then show ?thesis
          proof
            assume "NAME s = NAME (takeWhile is_word_char (c # cs))"
            then have "s = takeWhile is_word_char (c # cs)"
              by (simp only: token.inject)
            then show ?thesis
              using set_takeWhileD [of _ is_word_char "c # cs"] by blast
          next
            assume "NAME s \<in> set (lex (dropWhile is_word_char (c # cs)))"
            from "2.IH"(4) [OF ign nl kw True this] show ?thesis .
          qed
        next
          case word: False
          show ?thesis
          proof (cases "c \<in> set literals")
            case True
            with ign nl kw word have "lex (c # cs) = LIT c # lex cs"
              by (simp only: lex.simps if_True if_False simp_thms)
            with "2.prems" have "NAME s \<in> set (LIT c # lex cs)"
              by (simp only:)
            then have "NAME s = LIT c \<or> NAME s \<in> set (lex cs)"
              by (rule set_ConsD)
            then have "NAME s \<in> set (lex cs)"
              using token.distinct by blast
            from "2.IH"(5) [OF ign nl kw word True this] show ?thesis .
          next
            case False
            with ign nl kw word have "lex (c # cs) = [BAD (c # cs)]"
              by (simp only: lex.simps if_True if_False simp_thms)
            with "2.prems" have "NAME s \<in> set [BAD (c # cs)]"
              by (simp only:)
            then show ?thesis
              by simp
          qed
        qed
      qed
    qed
  qed
qed

lemma names_on_one_line_subset:
  "names_on_one_line ts \<Longrightarrow> set ts' \<subseteq> set ts \<Longrightarrow> names_on_one_line ts'"
  by (auto simp: names_on_one_line_def)

lemma names_on_one_line_Cons:
  "names_on_one_line (t # ts) \<Longrightarrow> names_on_one_line ts"
  by (auto simp: names_on_one_line_def)

lemma parse_field_one_line:
  assumes "parse_field ts = Inr (f, ts')" and "names_on_one_line ts"
  shows "CHR 0x0A \<notin> set (fst (snd f)) \<and> set ts' \<subseteq> set ts"
proof -
  from assms(1) obtain p1 ts1 where ts: "ts = NAME p1 # ts1"
    by (auto simp: parse_field_def split: list.splits token.splits)
  from assms(1) ts have "fst (snd f) = p1" and "set ts' \<subseteq> set ts1"
    by (auto simp: parse_field_def p_field_def split: list.splits token.splits if_splits)
  with assms(2) ts show ?thesis
    by (auto simp: names_on_one_line_def)
qed

lemma parse_more_fields_maybe_one_line:
  "parse_more_fields_maybe li ts = Inr (li', ts') \<Longrightarrow> names_on_one_line ts \<Longrightarrow>
   list_all (\<lambda>(nm, ty, md). CHR 0x0A \<notin> set ty) li \<Longrightarrow>
   list_all (\<lambda>(nm, ty, md). CHR 0x0A \<notin> set ty) li' \<and> set ts' \<subseteq> set ts"
proof (induction "length ts" arbitrary: li ts rule: less_induct)
  case less
  show ?case
  proof (cases "\<exists>f ts1 ts3. ts = LIT CHR '','' # ts1 \<and> parse_field ts1 = Inr (f, ts3)
                  \<and> parse_more_fields_maybe (li @ [f]) ts3 = Inr (li', ts')")
    case True
    then obtain f ts1 ts3 where ts: "ts = LIT CHR '','' # ts1"
      and pf: "parse_field ts1 = Inr (f, ts3)"
      and more: "parse_more_fields_maybe (li @ [f]) ts3 = Inr (li', ts')"
      by blast
    from less.prems(2) ts have ok1: "names_on_one_line ts1"
      by (simp add: names_on_one_line_def)
    from parse_field_one_line [OF pf ok1]
    have ty: "CHR 0x0A \<notin> set (fst (snd f))" and sub: "set ts3 \<subseteq> set ts1"
      by simp_all
    from parse_field_shorter [OF pf] ts have shorter: "length ts3 < length ts"
      by simp
    have ok3: "names_on_one_line ts3"
      by (rule names_on_one_line_subset [OF ok1 sub])
    have all: "list_all (\<lambda>(nm, ty, md). CHR 0x0A \<notin> set ty) (li @ [f])"
      using less.prems(3) ty by (cases f) auto
    from less.hyps [OF shorter more ok3 all] sub ts show ?thesis
      by auto
  next
    case False
    show ?thesis
    proof (cases ts)
      case Nil
      with less.prems show ?thesis by simp
    next
      case (Cons t ts1)
      show ?thesis
      proof (cases t)
        case (LIT c)
        show ?thesis
        proof (cases "c = CHR '']''")
          case True
          with less.prems Cons LIT show ?thesis
            by auto
        next
          case close: False
          show ?thesis
          proof (cases "c = CHR '',''")
            case True
            with close less.prems(1) Cons LIT False
            have "\<exists>ts2. ts1 = LIT CHR '']'' # ts2 \<and> li' = li \<and> ts' = ts2"
              by (auto split: list.splits token.splits if_splits sum.splits prod.splits)
            with less.prems(3) Cons show ?thesis
              by auto
          next
            case False
            with close less.prems(1) Cons LIT show ?thesis
              by simp
          qed
        qed
      qed (use less.prems Cons in simp_all)
    qed
  qed
qed

lemma parse_field_list_one_line:
  assumes "parse_field_list ts = Inr (li, ts')" and "names_on_one_line ts"
  shows "list_all (\<lambda>(nm, ty, md). CHR 0x0A \<notin> set ty) li \<and> set ts' \<subseteq> set ts"
proof (cases "\<exists>f ts2. parse_field ts = Inr (f, ts2) \<and>
    parse_more_fields_maybe [f] ts2 = Inr (li, ts')")
  case True
  then obtain f ts2 where pf: "parse_field ts = Inr (f, ts2)"
    and more: "parse_more_fields_maybe [f] ts2 = Inr (li, ts')"
    by blast
  from parse_field_one_line [OF pf assms(2)]
  have ty: "CHR 0x0A \<notin> set (fst (snd f))" and sub: "set ts2 \<subseteq> set ts"
    by simp_all
  have "list_all (\<lambda>(nm, ty, md). CHR 0x0A \<notin> set ty) [f]"
    using ty by (cases f) auto
  from parse_more_fields_maybe_one_line [OF more names_on_one_line_subset [OF assms(2) sub] this]
    sub
  show ?thesis
    by auto
next
  case False
  with assms(1) have "li = [] \<and> set ts' \<subseteq> set ts"
    by (auto simp: parse_field_list_def split: list.splits token.splits if_splits sum.splits)
  then show ?thesis
    by simp
qed

lemma parse_fields_one_line:
  assumes "parse_fields ts = Inr (fs, ts')" and "names_on_one_line ts"
  shows "types_on_one_line fs \<and> set ts' \<subseteq> set ts"
proof (cases "\<exists>ts1 li. ts = LIT CHR ''['' # ts1 \<and> parse_field_list ts1 = Inr (li, ts') \<and>
    fs = FieldList li")
  case True
  then obtain ts1 li where ts: "ts = LIT CHR ''['' # ts1"
    and fl: "parse_field_list ts1 = Inr (li, ts')" and fs: "fs = FieldList li"
    by blast
  from assms(2) ts have "names_on_one_line ts1"
    by (simp add: names_on_one_line_def)
  from parse_field_list_one_line [OF fl this] ts fs show ?thesis
    by (auto simp: types_on_one_line_def)
next
  case False
  with assms(1) have "fs = Inherit \<and> set ts' \<subseteq> set ts"
    by (auto simp: parse_fields_def split: list.splits token.splits if_splits sum.splits)
  then show ?thesis
    by (simp add: types_on_one_line_def)
qed

lemma parse_colon_fields_opt_one_line:
  assumes "parse_colon_fields_opt ts = Inr (fs, ts')" and "names_on_one_line ts"
  shows "types_on_one_line fs \<and> set ts' \<subseteq> set ts"
proof (cases "\<exists>ts1. ts = LIT CHR '':'' # ts1 \<and> parse_fields ts1 = Inr (fs, ts')")
  case True
  then obtain ts1 where ts: "ts = LIT CHR '':'' # ts1"
    and pf: "parse_fields ts1 = Inr (fs, ts')"
    by blast
  from assms(2) ts have "names_on_one_line ts1"
    by (simp add: names_on_one_line_def)
  from parse_fields_one_line [OF pf this] ts show ?thesis
    by auto
next
  case False
  with assms(1) have "fs = FieldList [] \<and> ts' = ts"
    by (auto simp: parse_colon_fields_opt_def p_colon_fields_opt_def
          split: list.splits token.splits if_splits sum.splits)
  then show ?thesis
    by (simp add: types_on_one_line_def)
qed

lemma parse_parent_class_opt_one_line:
  assumes "parse_parent_class_opt ts = Inr (par, ts')" and "names_on_one_line ts"
  shows "(case par of None \<Rightarrow> True | Some p \<Rightarrow> CHR 0x0A \<notin> set p) \<and> set ts' \<subseteq> set ts"
proof (cases par)
  case None
  with assms(1) have "ts' = ts"
    by (auto simp: parse_parent_class_opt_def split: list.splits token.splits if_splits)
  with None show ?thesis
    by simp
next
  case (Some p)
  with assms(1) have "ts = LIT CHR ''('' # NAME p # LIT CHR '')'' # ts'"
    by (auto simp: parse_parent_class_opt_def split: list.splits token.splits if_splits)
  with assms(2) Some show ?thesis
    by (auto simp: names_on_one_line_def)
qed

lemma zero_or_more_declaration_one_line:
  "zero_or_more_declaration seen ds ts = Inr ds' \<Longrightarrow> names_on_one_line ts \<Longrightarrow>
   \<forall>d \<in> set ds. on_one_line d \<Longrightarrow> \<forall>d \<in> set ds'. on_one_line d"
proof (induction seen ds ts rule: zero_or_more_declaration.induct)
  case (1 seen ds)
  then show ?case by simp
next
  case (2 seen ds p1 ts1)
  from "2.prems"(1) obtain p2 ts2 p3 ts3 seen' d
    where par: "parse_parent_class_opt ts1 = Inr (p2, ts2)"
      and cl: "parse_colon_fields_opt ts2 = Inr (p3, ts3)"
      and pd: "p_declaration seen p1 p2 p3 = Inr (seen', d)"
      and more: "zero_or_more_declaration seen' (ds @ [d]) ts3 = Inr ds'"
    by (auto split: sum.splits)
  from "2.prems"(2) have p1: "CHR 0x0A \<notin> set p1" and ok1: "names_on_one_line ts1"
    by (auto simp: names_on_one_line_def)
  from parse_parent_class_opt_one_line [OF par ok1]
  have p2: "case p2 of None \<Rightarrow> True | Some p \<Rightarrow> CHR 0x0A \<notin> set p" and suf2: "set ts2 \<subseteq> set ts1"
    by simp_all
  have ok2: "names_on_one_line ts2"
    by (rule names_on_one_line_subset [OF ok1 suf2])
  from parse_colon_fields_opt_one_line [OF cl ok2]
  have p3: "types_on_one_line p3" and suf3: "set ts3 \<subseteq> set ts2"
    by simp_all
  have ok3: "names_on_one_line ts3"
    by (rule names_on_one_line_subset [OF ok2 suf3])
  from p_declaration_seen [OF pd] have d: "d = Definition p1 p2 p3"
    by simp
  have "\<forall>d \<in> set (ds @ [d]). on_one_line d"
    using "2.prems"(3) p1 p2 p3 by (simp add: d on_one_line_def)
  from "2.IH" [OF par refl cl refl pd refl more ok3 this] show ?case .
qed simp_all

lemma parse_on_one_line:
  assumes "parse src = Inr data"
  shows "\<forall>d \<in> set data. on_one_line d"
proof -
  have "names_on_one_line (lex (remove_comments src))"
    using lex_names word_char_not_newline by (fastforce simp: names_on_one_line_def)
  from zero_or_more_declaration_one_line [OF assms [unfolded parse_def] this] show ?thesis
    by simp
qed

text \<open>
  The text that \<^verbatim>\<open>generate\<close> writes for the definitions that \<^verbatim>\<open>parse\<close> returns, when there
  is at least one: its lines that open a class are the lines \<^verbatim>\<open>class name(parent):\<close> of the
  definitions, one for each definition and in their order; the generated sources are the texts
  of the classes with three line feeds between one and the next, and no text of a class has an
  empty line, so two empty lines separate two classes; and the written text ends with the
  line feed that \<^verbatim>\<open>generate\<close> writes after the sources.
\<close>

lemma written_text_of_parsed:
  assumes "parse src = Inr data" and "data \<noteq> []"
  shows "class_lines (written_text data) =
           map (\<lambda>d. ''class '' @ name d @ ''('' @
                  (case parent d of None \<Rightarrow> ''object''
                   | Some p \<Rightarrow> if p = [] then ''object'' else p) @ ''):'') data \<and>
         generate_sources data =
           generate_class (hd data) @
           concat (map (\<lambda>d. [CHR 0x0A, CHR 0x0A, CHR 0x0A] @ generate_class d) (tl data)) \<and>
         (\<forall>d \<in> set data. [] \<notin> set (split_lines (generate_class d))) \<and>
         last (written_text data) = CHR 0x0A"
  by (rule generated_text_lines [OF assms(2) parse_on_one_line [OF assms(1)]])

lemma written_text_of_parsed_example:
  "parse ''A: [int x]\<newline>B(A): inherit'' =
     Inr [Definition ''A'' None (FieldList [(''x'', ''int'', ''NEEDED'')]),
          Definition ''B'' (Some ''A'') Inherit] \<and>
   class_lines (written_text
       [Definition ''A'' None (FieldList [(''x'', ''int'', ''NEEDED'')]),
        Definition ''B'' (Some ''A'') Inherit]) = [''class A(object):'', ''class B(A):''] \<and>
   last (written_text
       [Definition ''A'' None (FieldList [(''x'', ''int'', ''NEEDED'')]),
        Definition ''B'' (Some ''A'') Inherit]) = CHR 0x0A"
proof -
  have parsed: "parse ''A: [int x]\<newline>B(A): inherit'' =
     Inr [Definition ''A'' None (FieldList [(''x'', ''int'', ''NEEDED'')]),
          Definition ''B'' (Some ''A'') Inherit]"
    by (simp add: parse_def t_ignore_def literals_def is_word_char_def
        parse_parent_class_opt_def parse_colon_fields_opt_def parse_fields_def
        parse_field_list_def parse_field_def p_declaration_def p_colon_fields_opt_def
        p_field_def p_modifier_def)
  have "[Definition ''A'' None (FieldList [(''x'', ''int'', ''NEEDED'')]),
         Definition ''B'' (Some ''A'') Inherit] \<noteq> []"
    by simp
  from written_text_of_parsed [OF parsed this]
  have "class_lines (written_text
       [Definition ''A'' None (FieldList [(''x'', ''int'', ''NEEDED'')]),
        Definition ''B'' (Some ''A'') Inherit]) =
       map (\<lambda>d. ''class '' @ name d @ ''('' @
                  (case parent d of None \<Rightarrow> ''object''
                   | Some p \<Rightarrow> if p = [] then ''object'' else p) @ ''):'')
         [Definition ''A'' None (FieldList [(''x'', ''int'', ''NEEDED'')]),
          Definition ''B'' (Some ''A'') Inherit]"
    and ends: "last (written_text
       [Definition ''A'' None (FieldList [(''x'', ''int'', ''NEEDED'')]),
        Definition ''B'' (Some ''A'') Inherit]) = CHR 0x0A"
    by blast+
  then have "class_lines (written_text
       [Definition ''A'' None (FieldList [(''x'', ''int'', ''NEEDED'')]),
        Definition ''B'' (Some ''A'') Inherit]) = [''class A(object):'', ''class B(A):'']"
    by simp
  with parsed ends show ?thesis
    by blast
qed

subsection \<open>The end of the generated sources\<close>

lemma last_join:
  "xs \<noteq> [] \<Longrightarrow> last xs \<noteq> [] \<Longrightarrow> join sep xs \<noteq> [] \<and> last (join sep xs) = last (last xs)"
  by (induction xs rule: induct_list012) auto

lemma last_prettify_list: "prettify_list li \<noteq> [] \<and> last (prettify_list li) = CHR '']''"
proof (cases "li = []")
  case True
  then show ?thesis by (simp add: prettify_list_def)
next
  case False
  let ?xs = "[''['' ] @ map field_line li @ [indent @ indent @ '']'']"
  have "prettify_list li = join [CHR 0x0A] ?xs"
    using False by (simp add: prettify_list_def field_line_def [abs_def] indent_def)
  moreover have "?xs \<noteq> []" and "last ?xs = ''        ]''"
    by (simp_all add: indent_def)
  ultimately show ?thesis
    using last_join [of ?xs "[CHR 0x0A]"] by simp
qed

lemma last_generate_class:
  "generate_class d \<noteq> [] \<and> last (generate_class d) \<in> {CHR ''s'', CHR '']''}"
proof (cases "fields d")
  case Inherit
  then show ?thesis
    by (simp add: generate_class_def field_declaration_def)
next
  case (FieldList li)
  with last_prettify_list [of li] show ?thesis
    by (simp add: generate_class_def field_declaration_def)
qed

text \<open>
  C6 fails on the code: the text that \<^verbatim>\<open>generate_sources\<close> returns for one or more definitions
  never ends with a line feed. Its last character is the \<^verbatim>\<open>s\<close> of \<^verbatim>\<open>pass\<close> or a closing
  bracket, although the comment at the \<^verbatim>\<open>return\<close> says that a newline at the end is ensured.
\<close>

theorem generate_sources_no_final_newline:
  "last (generate_sources (d # ds)) \<noteq> CHR 0x0A \<and>
   generate_sources [Definition ''B'' (Some ''A'') Inherit] =
     ''class B(A):'' @ [CHR 0x0A] @ ''    pass''"
proof -
  let ?xs = "map generate_class (d # ds)"
  have "last ?xs = generate_class (last (d # ds))"
    by (simp add: last_map)
  with last_generate_class [of "last (d # ds)"]
  have "last ?xs \<noteq> []" and "last (last ?xs) \<in> {CHR ''s'', CHR '']''}"
    by simp_all
  with last_join [of ?xs "[CHR 0x0A, CHR 0x0A, CHR 0x0A]"]
  have "last (generate_sources (d # ds)) \<in> {CHR ''s'', CHR '']''}"
    by (simp add: generate_sources_def)
  then have "last (generate_sources (d # ds)) \<noteq> CHR 0x0A"
    by auto
  moreover have "generate_sources [Definition ''B'' (Some ''A'') Inherit] =
     ''class B(A):'' @ [CHR 0x0A] @ ''    pass''"
    by (simp add: generate_sources_def generate_class_def class_declaration_def
          field_declaration_def)
  ultimately show ?thesis
    by simp
qed

subsection \<open>Comments\<close>

lemma dropWhile_no_newline:
  "CHR 0x0A \<notin> set xs \<Longrightarrow>
   dropWhile (\<lambda>x. x \<noteq> CHR 0x0A) (xs @ ys) = dropWhile (\<lambda>x. x \<noteq> CHR 0x0A) ys"
  by (induction xs) auto

lemma dropWhile_newline_Nil:
  "CHR 0x0A \<notin> set xs \<Longrightarrow> dropWhile (\<lambda>x. x \<noteq> CHR 0x0A) xs = []"
  by (induction xs) auto

lemma remove_comments_one_line:
  "CHR 0x0A \<notin> set l \<Longrightarrow> remove_comments l = takeWhile (\<lambda>c. c \<noteq> CHR ''#'') l"
  by (induction l) (simp_all add: dropWhile_newline_Nil)

lemma remove_comments_lines:
  "CHR 0x0A \<notin> set l \<Longrightarrow>
   remove_comments (l @ CHR 0x0A # b) = remove_comments l @ CHR 0x0A # remove_comments b"
  by (induction l) (simp_all add: dropWhile_newline_Nil dropWhile_no_newline)

lemma join_lines_Cons:
  "ls \<noteq> [] \<Longrightarrow> join [CHR 0x0A] (l # ls) = l @ CHR 0x0A # join [CHR 0x0A] ls"
  by (cases ls) simp_all

lemma remove_comments_without_comments: "remove_comments src = without_comments src"
proof (induction "length src" arbitrary: src rule: less_induct)
  case less
  let ?l = "takeWhile (\<lambda>x. x \<noteq> CHR 0x0A) src"
  let ?r = "dropWhile (\<lambda>x. x \<noteq> CHR 0x0A) src"
  have l: "CHR 0x0A \<notin> set ?l"
    by (auto dest: set_takeWhileD)
  have src: "src = ?l @ ?r"
    by simp
  show ?case
  proof (cases ?r)
    case Nil
    with src have "src = ?l"
      by simp
    with l have one: "CHR 0x0A \<notin> set src"
      by simp
    then show ?thesis
      by (simp add: without_comments_def split_lines_one_line remove_comments_one_line)
  next
    case (Cons c rest)
    have "c = CHR 0x0A"
      using hd_dropWhile [of "\<lambda>x. x \<noteq> CHR 0x0A" src] Cons by simp
    with src Cons have whole: "src = ?l @ CHR 0x0A # rest"
      by simp
    then have "length src = length ?l + Suc (length rest)"
      by (metis length_append length_Cons)
    then have "length rest < length src"
      by simp
    from less [OF this] have rest: "remove_comments rest = without_comments rest" .
    have "remove_comments (?l @ CHR 0x0A # rest) =
        takeWhile (\<lambda>c. c \<noteq> CHR ''#'') ?l @ CHR 0x0A # without_comments rest"
      using remove_comments_lines [OF l, of rest] remove_comments_one_line [OF l] rest
      by (simp only:)
    moreover have "without_comments (?l @ CHR 0x0A # rest) =
        takeWhile (\<lambda>c. c \<noteq> CHR ''#'') ?l @ CHR 0x0A # without_comments rest"
      using split_lines_append [of ?l rest] split_lines_one_line [OF l]
        join_lines_Cons [of "map (takeWhile (\<lambda>c. c \<noteq> CHR ''#'')) (split_lines rest)"
          "takeWhile (\<lambda>c. c \<noteq> CHR ''#'') ?l"]
      by (simp add: without_comments_def)
    ultimately have "remove_comments (?l @ CHR 0x0A # rest) =
        without_comments (?l @ CHR 0x0A # rest)"
      by (simp only:)
    with whole show ?thesis
      by (simp only:)
  qed
qed

text \<open>
  C9: \<^verbatim>\<open>remove_comments\<close> removes exactly the comments, every \<^verbatim>\<open>#\<close> with what follows it on
  its line and nothing else; parsing a text gives the same result, a tuple of definitions or
  an error, as parsing the text with every comment removed; and no \<^verbatim>\<open>#\<close> is left in it.
\<close>

theorem parse_without_comments:
  "remove_comments src = without_comments src \<and>
   parse src = parse (without_comments src) \<and>
   CHR ''#'' \<notin> set (without_comments src)"
  using remove_comments_id [OF remove_comments_no_hash, of src] remove_comments_no_hash [of src]
  by (simp add: parse_def remove_comments_without_comments [symmetric])

theorem parse_without_comments_witness:
  "without_comments ''A: [int x] # the node A\<newline># B follows\<newline>B(A): inherit # last'' =
     ''A: [int x] \<newline>\<newline>B(A): inherit '' \<and>
   parse ''A: [int x] # the node A\<newline># B follows\<newline>B(A): inherit # last'' =
     Inr [Definition ''A'' None (FieldList [(''x'', ''int'', ''NEEDED'')]),
          Definition ''B'' (Some ''A'') Inherit]"
proof -
  have cut: "without_comments ''A: [int x] # the node A\<newline># B follows\<newline>B(A): inherit # last'' =
     ''A: [int x] \<newline>\<newline>B(A): inherit ''"
    by (simp add: without_comments_def)
  have "parse ''A: [int x] \<newline>\<newline>B(A): inherit '' =
     Inr [Definition ''A'' None (FieldList [(''x'', ''int'', ''NEEDED'')]),
          Definition ''B'' (Some ''A'') Inherit]"
    by (simp add: parse_def t_ignore_def literals_def is_word_char_def
        parse_parent_class_opt_def parse_colon_fields_opt_def parse_fields_def
        parse_field_list_def parse_field_def p_declaration_def p_colon_fields_opt_def
        p_field_def p_modifier_def)
  with cut
    parse_without_comments [of "''A: [int x] # the node A\<newline># B follows\<newline>B(A): inherit # last''"]
  show ?thesis
    by (simp only:)
qed

end
